theory Spec2Isabelle
  imports Main "HOL-Library.Signed_Division" "HOL-Library.Multiset"
begin

section \<open>Go machine integers\<close>

text \<open>
  Go's \<open>int\<close> and \<open>int64\<close> are 64-bit two's complement on the platforms the tool is
  built for. They are modelled as \<open>int\<close>, and every arithmetic result is passed
  through \<open>wrap64\<close>, which reduces it into the range \<open>-2^63 .. 2^63 - 1\<close>.
  Go's \<open>%\<close> truncates towards zero: it is \<open>smod\<close>.
\<close>

definition wrap64 :: "int \<Rightarrow> int" where
  "wrap64 x = (x + 2 ^ 63) mod 2 ^ 64 - 2 ^ 63"

definition int64_range :: "int \<Rightarrow> bool" where
  "int64_range x = (- (2 ^ 63) \<le> x \<and> x < 2 ^ 63)"

section \<open>Domain helpers\<close>

text \<open>
  \<open>strings.Split(s, ".")\<close> of the Go standard library, for a one-byte separator:
  the substrings between the separators, in order; a string without the separator
  gives the one-element list holding the string itself (also for the empty string).
  Go strings are byte sequences and \<open>len\<close> counts bytes, as \<open>length\<close> does on
  \<open>string\<close>.
\<close>

fun Split :: "string \<Rightarrow> char \<Rightarrow> string list" where
  "Split [] sep = [[]]"
| "Split (c # cs) sep =
     (if c = sep then [] # Split cs sep
      else (case Split cs sep of
              [] \<Rightarrow> [[c]]
            | l # ls \<Rightarrow> (c # l) # ls))"

text \<open>
  The loop of \<open>IsValidDomain\<close> over the labels, with its early \<open>return false\<close>.
\<close>

fun labelsOk :: "string list \<Rightarrow> bool" where
  "labelsOk [] = True"
| "labelsOk (label # rest) =
     (let l = length label in
      if l < 1 \<or> l > 63 then False else labelsOk rest)"

definition IsValidDomain :: "string \<Rightarrow> bool" where
  "IsValidDomain domain =
     (if length domain > 253 then False
      else labelsOk (Split domain CHR ''.''))"

text \<open>The inverse of \<open>Split\<close>: the labels written with the separator between them.\<close>

fun Join :: "string list \<Rightarrow> char \<Rightarrow> string" where
  "Join [] sep = []"
| "Join [l] sep = l"
| "Join (l # l' # ls) sep = l @ sep # Join (l' # ls) sep"

section \<open>Rate-limiter globals\<close>

text \<open>
  The package-level variables of the rate limiter. \<open>trace\<close> is not a variable of the
  program: it records, in order, the observable effects of the rate limiter (the stores
  to the paused flag, the printed line, the sleeps).
\<close>

datatype rl_event =
    PollSleep
  | StorePaused int
  | PrintRateLimit int int
  | PauseSleep int

record globals =
  rlCount :: int
  rlThreshold :: int
  rlSleep :: int
  rlPaused :: int
  trace :: "rl_event list"

definition InitRateLimiter :: "int \<Rightarrow> int \<Rightarrow> globals \<Rightarrow> globals" where
  "InitRateLimiter threshold sleep g = g\<lparr>rlThreshold := threshold, rlSleep := sleep\<rparr>"

text \<open>
  The wait loop at the head of \<open>rateLimitCheck\<close>, as one goroutine runs it with no other
  goroutine to clear the flag: it polls until the flag is 0, and polls forever when the
  flag is set (the value \<open>None\<close>).
\<close>

partial_function (option) waitWhilePaused :: "globals \<Rightarrow> globals option" where
  "waitWhilePaused g =
     (if rlPaused g \<noteq> 0 then waitWhilePaused (g\<lparr>trace := trace g @ [PollSleep]\<rparr>)
      else Some g)"

declare waitWhilePaused.simps [code]

definition rateLimitCheck :: "globals \<Rightarrow> globals option" where
  "rateLimitCheck g =
     (if rlThreshold g \<le> 0 then Some g
      else
        (case waitWhilePaused g of
           None \<Rightarrow> None
         | Some g1 \<Rightarrow>
             let count = wrap64 (rlCount g1 + 1);
                 g2 = g1\<lparr>rlCount := count\<rparr>
             in if count smod rlThreshold g2 = 0 then
                  let g3 = g2\<lparr>rlPaused := 1, trace := trace g2 @ [StorePaused 1]\<rparr>;
                      g4 = g3\<lparr>trace := trace g3 @ [PrintRateLimit count (rlSleep g3)]\<rparr>;
                      g5 = g4\<lparr>trace := trace g4 @ [PauseSleep (rlSleep g4)]\<rparr>
                  in Some (g5\<lparr>rlPaused := 0, trace := trace g5 @ [StorePaused 0]\<rparr>)
                else Some g2))"

text \<open>\<open>n\<close> requests admitted one after the other by a single worker.\<close>

fun admitRequests :: "nat \<Rightarrow> globals \<Rightarrow> globals option" where
  "admitRequests 0 g = Some g"
| "admitRequests (Suc n) g =
     (case rateLimitCheck g of
        None \<Rightarrow> None
      | Some g' \<Rightarrow> admitRequests n g')"

text \<open>
  The pause events of a trace, each given by the request count of its printed line (the
  line is printed only between setting the flag and sleeping).
\<close>

fun pauseEvents :: "rl_event list \<Rightarrow> int list" where
  "pauseEvents [] = []"
| "pauseEvents (PauseSleep d # es) = pauseEvents es"
| "pauseEvents (PrintRateLimit n d # es) = n # pauseEvents es"
| "pauseEvents (e # es) = pauseEvents es"

text \<open>The state of a fresh process after \<open>InitRateLimiter threshold sleep\<close>.\<close>

definition startGlobals :: "int \<Rightarrow> int \<Rightarrow> globals" where
  "startGlobals threshold sleep =
     InitRateLimiter threshold sleep
       \<lparr>rlCount = 0, rlThreshold = 0, rlSleep = 0, rlPaused = 0, trace = []\<rparr>"

section \<open>Processes, output and the environment\<close>

text \<open>
  A call either returns, or ends the whole process (\<open>os.Exit\<close> with its status), or
  panics. The lines a call prints are recorded as messages, without their layout. The
  progress ticker, which prints \<open>done/total\<close> every 500 ms on its own goroutine, is
  left out.
\<close>

datatype 'a ending = Returned 'a | Exited int | Panicked

datatype message =
    FileNotFound string
  | NameserverFileEmpty
  | UsingCustomNameservers
  | BruteForcingNames nat
  | ErrorQueryingNameservers
  | TrySettingNs
  | ConnectionError string string
  | Complete nat nat
  | ClearLine

text \<open>
  The world a batch runs in: what it has printed, and the state the caller's callback
  works on (the callback is any state transformer of the caller).
\<close>

record 'c world =
  printed :: "message list"
  cbState :: 'c

text \<open>
  What the program takes from outside: the files it can open, each as the lines
  \<open>bufio.Scanner\<close> yields (\<open>None\<close> when \<open>os.Open\<close> fails), and the standard library's
  \<open>strings.TrimSpace\<close>.
\<close>

record env =
  files :: "string \<Rightarrow> string list option"
  TrimSpace :: "string \<Rightarrow> string"

definition Second :: int where
  "Second = 1000000000"

section \<open>Reading the nameserver file\<close>

definition HasPrefix :: "string \<Rightarrow> string \<Rightarrow> bool" where
  "HasPrefix s p = (take (length p) s = p)"

text \<open>The scanning loop of \<open>ReadNameservers\<close>.\<close>

fun scanNameservers :: "env \<Rightarrow> string list \<Rightarrow> string list \<Rightarrow> string list" where
  "scanNameservers e [] ns = ns"
| "scanNameservers e (text # rest) ns =
     (let line = TrimSpace e text in
      if line \<noteq> [] \<and> \<not> HasPrefix line ''#''
      then scanNameservers e rest (ns @ [line])
      else scanNameservers e rest ns)"

definition ReadNameservers ::
  "env \<Rightarrow> string \<Rightarrow> 'c world \<Rightarrow> 'c world \<times> string list ending" where
  "ReadNameservers e filePath w =
     (case files e filePath of
        None \<Rightarrow> (w\<lparr>printed := printed w @ [FileNotFound filePath]\<rparr>, Exited 1)
      | Some lines \<Rightarrow>
          let ns = scanNameservers e lines [] in
          if length ns = 0
          then (w\<lparr>printed := printed w @ [NameserverFileEmpty]\<rparr>, Exited 1)
          else (w, Returned ns))"

section \<open>DNS helpers\<close>

definition useCustomNS :: "string \<Rightarrow> string \<Rightarrow> bool" where
  "useCustomNS nameserver nameserverFile =
     (nameserverFile \<noteq> [] \<or> (nameserver \<noteq> [] \<and> nameserver \<noteq> ''1.1.1.1''))"

text \<open>The default of the command line's \<open>-ns\<close> flag (\<open>parseArguments\<close>).\<close>

definition nsFlagDefault :: string where
  "nsFlagDefault = ''1.1.1.1''"

text \<open>
  A resolver is the system's \<open>net.DefaultResolver\<close> or one built by \<open>newResolver\<close>
  over a list of nameservers. \<open>dialAddress\<close> is the address the \<open>i\<close>-th \<open>Dial\<close> of
  such a resolver goes to (the nameservers in rotation); with no nameserver the index
  computation divides by zero and panics (\<open>None\<close>).
\<close>

datatype resolver = DefaultResolver | CustomResolver "string list"

definition newResolver :: "string list \<Rightarrow> resolver" where
  "newResolver nameservers = CustomResolver nameservers"

definition dialAddress :: "string list \<Rightarrow> nat \<Rightarrow> string option" where
  "dialAddress nameservers i =
     (if length nameservers = 0 then None
      else Some (nameservers ! (i mod length nameservers) @ '':53''))"

text \<open>
  The errors \<open>resolver.LookupHost\<close> can return, as far as \<open>dnsLookup\<close> tells them
  apart: a \<open>*net.DNSError\<close> with its two flags; an error of another type that has an
  \<open>Unwrap\<close> method, with what that returns (\<open>None\<close> for nil); any other error.
\<close>

datatype go_error =
    DNSError bool bool
  | Wrapper "go_error option"
  | OtherError

text \<open>
  The block of \<open>dnsLookup\<close> that looks for the \<open>*net.DNSError\<close>: the error itself, or
  what it unwraps to, one level down. The result is the pair
  \<open>(IsNotFound, IsTimeout)\<close>, or \<open>None\<close> when \<open>dnsErr\<close> stays nil.
\<close>

fun findDNSError :: "go_error \<Rightarrow> (bool \<times> bool) option" where
  "findDNSError (DNSError isNotFound isTimeout) = Some (isNotFound, isTimeout)"
| "findDNSError (Wrapper (Some (DNSError isNotFound isTimeout))) = Some (isNotFound, isTimeout)"
| "findDNSError err = None"

definition BREAKOUT_DNS_ERROR :: string where
  "BREAKOUT_DNS_ERROR = ''-#BREAKOUT_DNS_ERROR#-''"

text \<open>
  \<open>lookupHost resolver timeout name k\<close> is the answer to the \<open>k\<close>-th call of
  \<open>resolver.LookupHost\<close> that this \<open>dnsLookup\<close> makes, under a fresh context with the
  given timeout: \<open>None\<close> for success (\<open>err == nil\<close>), or the error.
  \<open>dnsLookupFrom\<close> is the loop, entered with the value of \<open>tries\<close>.
\<close>

type_synonym lookup_host = "resolver \<Rightarrow> int \<Rightarrow> string \<Rightarrow> nat \<Rightarrow> go_error option"

function dnsLookupFrom :: "nat \<Rightarrow> lookup_host \<Rightarrow> resolver \<Rightarrow> string \<Rightarrow> int \<Rightarrow> string" where
  "dnsLookupFrom tries lookupHost resolver name timeout =
     (if tries < 2 then
        (case lookupHost resolver timeout name tries of
           None \<Rightarrow> name
         | Some err \<Rightarrow>
             (case findDNSError err of
                Some (isNotFound, isTimeout) \<Rightarrow>
                  if isNotFound then []
                  else if isTimeout then dnsLookupFrom (tries + 1) lookupHost resolver name timeout
                  else BREAKOUT_DNS_ERROR
              | None \<Rightarrow> []))
      else [])"
  by pat_completeness auto
termination
  by (relation "measure (\<lambda>(tries, lookupHost, resolver, name, timeout). 2 - tries)") auto

declare dnsLookupFrom.simps [simp del]

definition dnsLookup :: "lookup_host \<Rightarrow> resolver \<Rightarrow> string \<Rightarrow> int \<Rightarrow> string" where
  "dnsLookup lookupHost resolver name timeout = dnsLookupFrom 0 lookupHost resolver name timeout"

text \<open>
  How the consuming loop of \<open>FastDNSLookup\<close> reads the string \<open>dnsLookup\<close> returns:
  the empty string is skipped (not found), the sentinel is fatal, anything else is a
  resolved name.
\<close>

datatype ResolutionOutcome = Resolved string | NotFound | Fatal

definition outcomeOf :: "string \<Rightarrow> ResolutionOutcome" where
  "outcomeOf name =
     (if name = [] then NotFound
      else if name = BREAKOUT_DNS_ERROR then Fatal
      else Resolved name)"

section \<open>The DNS batch\<close>

text \<open>The resolver selection at the head of \<open>FastDNSLookup\<close>.\<close>

definition chooseResolver ::
  "env \<Rightarrow> string \<Rightarrow> string \<Rightarrow> 'c world \<Rightarrow> 'c world \<times> (resolver \<times> int) ending" where
  "chooseResolver e nameserver nameserverFile w =
     (if useCustomNS nameserver nameserverFile then
        (case (if nameserverFile \<noteq> [] then ReadNameservers e nameserverFile w
               else (w, Returned [nameserver])) of
           (w1, Returned nsList) \<Rightarrow>
             (w1\<lparr>printed := printed w1 @ [UsingCustomNameservers]\<rparr>,
              Returned (newResolver nsList, 3 * Second))
         | (w1, Exited status) \<Rightarrow> (w1, Exited status)
         | (w1, Panicked) \<Rightarrow> (w1, Panicked))
      else (w, Returned (DefaultResolver, 5 * Second)))"

text \<open>
  The filter loop both batch engines start with: the entries that pass
  \<open>IsValidDomain\<close>, appended in order.
\<close>

fun keepValid :: "string list \<Rightarrow> string list \<Rightarrow> string list" where
  "keepValid [] valid = valid"
| "keepValid (u # rest) valid =
     (if IsValidDomain u then keepValid rest (valid @ [u]) else keepValid rest valid)"

definition dnsConcurrency :: "int \<Rightarrow> int \<Rightarrow> int" where
  "dnsConcurrency threads nTotal =
     (let c = wrap64 (threads * 10);
          c = (if c > 500 then 500 else c);
          c = (if c > nTotal then nTotal else c)
      in c)"

text \<open>
  The loop \<open>for w := 0; w < n; w++\<close> that starts one worker goroutine per round, with the
  number of workers started so far.
\<close>

function spawnWorkers :: "int \<Rightarrow> int \<Rightarrow> nat \<Rightarrow> nat" where
  "spawnWorkers w n started =
     (if w < n then spawnWorkers (w + 1) n (Suc started) else started)"
  by pat_completeness auto
termination
  by (relation "measure (\<lambda>(w, n, started). nat (n - w))") auto

declare spawnWorkers.simps [simp del]

text \<open>
  The consuming loop, over the results in the order they come out of the result
  channel. A fatal result ends the process on the spot.
\<close>

fun consumeResults ::
  "(string \<Rightarrow> 'c \<Rightarrow> 'c) option \<Rightarrow> string list \<Rightarrow> 'c world \<Rightarrow> string list \<Rightarrow>
     'c world \<times> string list ending" where
  "consumeResults callback [] w validNames = (w, Returned validNames)"
| "consumeResults callback (name # rest) w validNames =
     (if name = [] then consumeResults callback rest w validNames
      else if name = BREAKOUT_DNS_ERROR then
        (w\<lparr>printed := printed w @ [ErrorQueryingNameservers, TrySettingNs]\<rparr>, Exited 1)
      else
        let w' = (case callback of
                    None \<Rightarrow> w
                  | Some f \<Rightarrow> w\<lparr>cbState := f name (cbState w)\<rparr>)
        in consumeResults callback rest w' (validNames @ [name]))"

text \<open>
  The workers, the feeder and the closer run concurrently. What the consuming loop sees
  of them is the order in which the results arrive, which is the order in which the
  lookups complete: \<open>sched\<close> lists the positions of the jobs in \<open>filtered\<close> in that
  order. Every job is fed and every worker sends its result before taking the next job,
  so with at least one worker a schedule is a permutation of the positions
  (\<open>validSchedule\<close>). Job \<open>i\<close> is answered by \<open>net i\<close>. With no worker at all the closer
  closes the result channel at once and the loop sees nothing.
\<close>

definition validSchedule :: "nat list \<Rightarrow> nat \<Rightarrow> bool" where
  "validSchedule sched n = (mset sched = mset [0..<n])"

definition lookupResults ::
  "(nat \<Rightarrow> lookup_host) \<Rightarrow> resolver \<Rightarrow> int \<Rightarrow> string list \<Rightarrow> string list" where
  "lookupResults net resolver lookupTimeout filtered =
     map (\<lambda>i. dnsLookup (net i) resolver (filtered ! i) lookupTimeout) [0..<length filtered]"

definition arrivals :: "nat \<Rightarrow> nat list \<Rightarrow> string list \<Rightarrow> string list" where
  "arrivals workers sched results =
     (if workers = 0 then []
      else map (\<lambda>i. results ! i) (filter (\<lambda>i. i < length results) sched))"

definition FastDNSLookup ::
  "env \<Rightarrow> (nat \<Rightarrow> lookup_host) \<Rightarrow> nat list \<Rightarrow>
   string list \<Rightarrow> string \<Rightarrow> string \<Rightarrow> (string \<Rightarrow> 'c \<Rightarrow> 'c) option \<Rightarrow> int \<Rightarrow>
   'c world \<Rightarrow> 'c world \<times> string list ending" where
  "FastDNSLookup e net sched names nameserver nameserverFile callback threads w =
     (let nTotal = length names in
      if nTotal = 0 then (w, Returned [])
      else
        (case chooseResolver e nameserver nameserverFile w of
           (w1, Exited status) \<Rightarrow> (w1, Exited status)
         | (w1, Panicked) \<Rightarrow> (w1, Panicked)
         | (w1, Returned (resolver, lookupTimeout)) \<Rightarrow>
             let w2 = w1\<lparr>printed := printed w1 @ [BruteForcingNames nTotal]\<rparr>;
                 filtered = keepValid names [];
                 nTotal = length filtered
             in if nTotal = 0 then (w2, Returned [])
                else
                  let c = dnsConcurrency threads (int nTotal) in
                  if wrap64 (c * 2) < 0 then (w2, Panicked)
                  else
                    let workers = spawnWorkers 0 c 0;
                        results = lookupResults net resolver lookupTimeout filtered
                    in (case consumeResults callback (arrivals workers sched results) w2 [] of
                          (w3, Returned validNames) \<Rightarrow>
                            (w3\<lparr>printed := printed w3 @ [Complete nTotal nTotal, ClearLine]\<rparr>,
                             Returned validNames)
                        | (w3, stopped) \<Rightarrow> (w3, stopped))))"

text \<open>
  The per-name policy in the words of the specification. An answer of \<open>LookupHost\<close> is
  a success, a name-not-found error, a timeout, or any other resolver error; the flags
  are read in the order \<open>dnsLookup\<close> tests them. A success resolves the name, a
  not-found error gives not-found, any other error is fatal, and a timeout hands the
  decision to the answer of the one retry, where a second timeout gives not-found.
\<close>

datatype answer_kind = Success | NameNotFound | TimedOut | OtherResolverError

definition answerKind :: "go_error option \<Rightarrow> answer_kind" where
  "answerKind answer =
     (case answer of
        None \<Rightarrow> Success
      | Some err \<Rightarrow>
          (case findDNSError err of
             None \<Rightarrow> OtherResolverError
           | Some (isNotFound, isTimeout) \<Rightarrow>
               if isNotFound then NameNotFound
               else if isTimeout then TimedOut
               else OtherResolverError))"

fun finalOutcome :: "string \<Rightarrow> answer_kind \<Rightarrow> ResolutionOutcome" where
  "finalOutcome name Success = Resolved name"
| "finalOutcome name NameNotFound = NotFound"
| "finalOutcome name TimedOut = NotFound"
| "finalOutcome name OtherResolverError = Fatal"

definition policyOutcome :: "string \<Rightarrow> answer_kind \<Rightarrow> answer_kind \<Rightarrow> ResolutionOutcome" where
  "policyOutcome name first retry =
     (if first = TimedOut then finalOutcome name retry else finalOutcome name first)"

text \<open>
  What \<open>LookupHost\<close> of a \<open>*net.Resolver\<close> answers: nil, or a \<open>*net.DNSError\<close> (the
  standard library's resolver reports every failure as one, and \<open>FastDNSLookup\<close> only
  ever passes such a resolver). An error that unwraps to a \<open>*net.DNSError\<close> is admitted
  as well, since \<open>dnsLookup\<close> treats it alike.
\<close>

definition resolverAnswer :: "go_error option \<Rightarrow> bool" where
  "resolverAnswer answer =
     (case answer of
        None \<Rightarrow> True
      | Some err \<Rightarrow> findDNSError err \<noteq> None)"

text \<open>The string \<open>dnsLookup\<close> returns for an outcome.\<close>

fun returnedFor :: "ResolutionOutcome \<Rightarrow> string" where
  "returnedFor (Resolved name) = name"
| "returnedFor NotFound = []"
| "returnedFor Fatal = BREAKOUT_DNS_ERROR"

text \<open>
  The callback applied to a list of names, first to last; no callback leaves the state
  as it is.
\<close>

fun applyCallback :: "(string \<Rightarrow> 'c \<Rightarrow> 'c) option \<Rightarrow> string list \<Rightarrow> 'c \<Rightarrow> 'c" where
  "applyCallback callback [] s = s"
| "applyCallback callback (name # rest) s =
     applyCallback callback rest (case callback of None \<Rightarrow> s | Some f \<Rightarrow> f name s)"

text \<open>
  Two runs end alike when both return and the returned lists hold the same names, or
  both end the process with the same status, or both panic.
\<close>

fun sameResolvedSet :: "string list ending \<Rightarrow> string list ending \<Rightarrow> bool" where
  "sameResolvedSet (Returned a) (Returned b) = (set a = set b)"
| "sameResolvedSet (Exited c) (Exited d) = (c = d)"
| "sameResolvedSet Panicked Panicked = True"
| "sameResolvedSet x y = False"

section \<open>The HTTP batch\<close>

record HttpResult =
  URL :: string
  StatusCode :: int
  Reason :: string
  Body :: string
  OriginalURL :: string

text \<open>
  What \<open>client.Get\<close> hands back on success, as far as the worker uses it: the URL of
  the final request, the status code, the status line, and the bytes
  \<open>io.ReadAtLeast\<close> has put into the 8192-byte buffer.
\<close>

record response =
  finalURL :: string
  statusCode :: int
  statusLine :: string
  bodyRead :: string

text \<open>\<open>strings.SplitN(status, " ", 2)\<close>: the text after the first space, when there is one.\<close>

definition extractReason :: "string \<Rightarrow> string" where
  "extractReason st =
     (case dropWhile (\<lambda>c. c \<noteq> CHR '' '') st of
        [] \<Rightarrow> st
      | sp # rest \<Rightarrow> rest)"

fun Contains :: "string \<Rightarrow> string \<Rightarrow> bool" where
  "Contains [] sub = (sub = [])"
| "Contains (c # s) sub = (HasPrefix (c # s) sub \<or> Contains s sub)"

text \<open>
  The goroutines of \<open>GetURLBatch\<close> run interleaved. Each is given by the point it has
  reached. A worker is waiting to receive from \<open>jobs\<close>; or holds a URL and is about to
  load \<open>aborted\<close>; or has loaded 0 and is about to call \<open>rateLimitCheck\<close>; or is about
  to call \<open>client.Get\<close>; or has sent the request and waits for the answer; or holds a
  result to send on \<open>resultsCh\<close>; or has left its loop.
\<close>

datatype worker =
    Receiving
  | Loading string
  | Admitting string
  | Requesting string
  | Awaiting string
  | Sending HttpResult
  | Stopped

datatype feeder = FeederLoop | FeederSend string | FeederClose | FeederDone

text \<open>
  The state of a running batch: the local variables of \<open>GetURLBatch\<close>, the two channels
  with their capacities, the points the goroutines have reached, the rate limiter's
  package-level variables, and the caller's world. \<open>requests\<close> is not a variable of the
  program: it lists the requests sent so far, each with the value \<open>aborted\<close> had when
  it was sent.
\<close>

record 'c batch =
  nTotal :: nat
  proto :: string
  feeder :: feeder
  feed :: "string list"
  jobs :: "string list"
  jobsCap :: nat
  jobsClosed :: bool
  workers :: "worker list"
  resultsCh :: "HttpResult list"
  resultsCap :: nat
  resultsClosed :: bool
  doneCount :: int
  aborted :: int
  returned :: bool
  rl :: globals
  requests :: "(string \<times> int) list"
  caller :: "'c world"

text \<open>
  \<open>GetURLBatch\<close> up to the point where its goroutines start. \<open>followRedirects\<close> only
  configures the client, whose answers are inputs of the model.
\<close>

datatype 'c launch = NothingToDo | MakeChanPanics | Launched "'c batch"

definition GetURLBatch_launch ::
  "string list \<Rightarrow> bool \<Rightarrow> int \<Rightarrow> bool \<Rightarrow> globals \<Rightarrow> 'c world \<Rightarrow> 'c launch" where
  "GetURLBatch_launch urlList useSSL threads followRedirects g w =
     (let n = length urlList in
      if n = 0 then NothingToDo
      else
        let valid = keepValid urlList [];
            n = length valid
        in if n = 0 then NothingToDo
           else
             let pr = (if useSSL then ''https://'' else ''http://'') in
             if wrap64 (threads * 2) < 0 then MakeChanPanics
             else Launched
               \<lparr>nTotal = n, proto = pr, feeder = FeederLoop, feed = valid,
                jobs = [], jobsCap = nat (wrap64 (threads * 2)), jobsClosed = False,
                workers = replicate (spawnWorkers 0 threads 0) Receiving,
                resultsCh = [], resultsCap = nat (wrap64 (threads * 2)), resultsClosed = False,
                doneCount = 0, aborted = 0, returned = False,
                rl = g, requests = [], caller = w\<rparr>)"

text \<open>
  One step of one goroutine. The feeder loads \<open>aborted\<close> at the head of its loop, sends
  the next URL, closes \<open>jobs\<close>. Worker \<open>i\<close> receives a URL (or sees \<open>jobs\<close> closed and
  empty), loads \<open>aborted\<close> (and drains the URL when it is set), calls \<open>rateLimitCheck\<close>,
  sends the request, gets the answer (an error text or a response), sends the result.
  The closer closes \<open>resultsCh\<close> once every worker has stopped. The consuming loop takes
  a result, calls the callback and stores 1 in \<open>aborted\<close> when it returns true; it
  returns, after the last progress line, when \<open>resultsCh\<close> is closed and empty. A step
  that cannot be taken in the state (a send on a full channel, a receive on an empty
  open one) is \<open>None\<close>. The call of \<open>rateLimitCheck\<close> is one step, its pause included:
  what the other goroutines do while a worker sleeps in it is not told apart from what
  they do before or after.
\<close>

datatype action =
    FeederLoads
  | FeederSends
  | FeederCloses
  | Receive nat
  | LoadAborted nat
  | RateLimit nat
  | Get nat
  | Answer nat "string + response"
  | SendResult nat
  | CloseResults
  | Consume
  | Return

definition setWorker :: "nat \<Rightarrow> worker \<Rightarrow> 'c batch \<Rightarrow> 'c batch" where
  "setWorker i wk s = s\<lparr>workers := (workers s)[i := wk]\<rparr>"

definition workerAt :: "'c batch \<Rightarrow> nat \<Rightarrow> worker option" where
  "workerAt s i = (if i < length (workers s) then Some (workers s ! i) else None)"

fun step :: "(HttpResult \<Rightarrow> 'c \<Rightarrow> bool \<times> 'c) \<Rightarrow> action \<Rightarrow> 'c batch \<Rightarrow> 'c batch option" where
  "step callback FeederLoads s =
     (case feeder s of
        FeederLoop \<Rightarrow>
          (case feed s of
             [] \<Rightarrow> Some (s\<lparr>feeder := FeederClose\<rparr>)
           | u # rest \<Rightarrow>
               if aborted s \<noteq> 0 then Some (s\<lparr>feeder := FeederClose\<rparr>)
               else Some (s\<lparr>feeder := FeederSend u, feed := rest\<rparr>))
      | _ \<Rightarrow> None)"
| "step callback FeederSends s =
     (case feeder s of
        FeederSend u \<Rightarrow>
          if length (jobs s) < jobsCap s
          then Some (s\<lparr>jobs := jobs s @ [u], feeder := FeederLoop\<rparr>)
          else None
      | _ \<Rightarrow> None)"
| "step callback FeederCloses s =
     (case feeder s of
        FeederClose \<Rightarrow> Some (s\<lparr>jobsClosed := True, feeder := FeederDone\<rparr>)
      | _ \<Rightarrow> None)"
| "step callback (Receive i) s =
     (case workerAt s i of
        Some Receiving \<Rightarrow>
          (case jobs s of
             u # rest \<Rightarrow> Some (setWorker i (Loading u) (s\<lparr>jobs := rest\<rparr>))
           | [] \<Rightarrow> if jobsClosed s then Some (setWorker i Stopped s) else None)
      | _ \<Rightarrow> None)"
| "step callback (LoadAborted i) s =
     (case workerAt s i of
        Some (Loading u) \<Rightarrow>
          if aborted s \<noteq> 0
          then Some (setWorker i Receiving (s\<lparr>doneCount := wrap64 (doneCount s + 1)\<rparr>))
          else Some (setWorker i (Admitting u) s)
      | _ \<Rightarrow> None)"
| "step callback (RateLimit i) s =
     (case workerAt s i of
        Some (Admitting u) \<Rightarrow>
          (case rateLimitCheck (rl s) of
             None \<Rightarrow> None
           | Some g \<Rightarrow> Some (setWorker i (Requesting u) (s\<lparr>rl := g\<rparr>)))
      | _ \<Rightarrow> None)"
| "step callback (Get i) s =
     (case workerAt s i of
        Some (Requesting u) \<Rightarrow>
          Some (setWorker i (Awaiting u)
                  (s\<lparr>requests := requests s @ [(proto s @ u, aborted s)]\<rparr>))
      | _ \<Rightarrow> None)"
| "step callback (Answer i a) s =
     (case workerAt s i of
        Some (Awaiting u) \<Rightarrow>
          (case a of
             Inl err \<Rightarrow>
               let w = caller s;
                   w' = (if \<not> Contains err ''context canceled''
                         then w\<lparr>printed := printed w @ [ConnectionError u err]\<rparr>
                         else w)
               in Some (setWorker i Receiving (s\<lparr>caller := w', doneCount := wrap64 (doneCount s + 1)\<rparr>))
           | Inr resp \<Rightarrow>
               Some (setWorker i
                 (Sending \<lparr>URL = finalURL resp, StatusCode = statusCode resp,
                           Reason = extractReason (statusLine resp),
                           Body = take 8192 (bodyRead resp),
                           OriginalURL = proto s @ u\<rparr>) s))
      | _ \<Rightarrow> None)"
| "step callback (SendResult i) s =
     (case workerAt s i of
        Some (Sending r) \<Rightarrow>
          if length (resultsCh s) < resultsCap s
          then Some (setWorker i Receiving
                       (s\<lparr>resultsCh := resultsCh s @ [r], doneCount := wrap64 (doneCount s + 1)\<rparr>))
          else None
      | _ \<Rightarrow> None)"
| "step callback CloseResults s =
     (if list_all (\<lambda>wk. wk = Stopped) (workers s) \<and> \<not> resultsClosed s
      then Some (s\<lparr>resultsClosed := True\<rparr>)
      else None)"
| "step callback Consume s =
     (if returned s then None
      else
        (case resultsCh s of
           [] \<Rightarrow> None
         | r # rest \<Rightarrow>
             let w = caller s;
                 (stop, c) = callback r (cbState w)
             in Some (s\<lparr>resultsCh := rest, caller := w\<lparr>cbState := c\<rparr>,
                        aborted := (if stop then 1 else aborted s)\<rparr>)))"
| "step callback Return s =
     (if \<not> returned s \<and> resultsCh s = [] \<and> resultsClosed s
      then
        let w = caller s in
        Some (s\<lparr>returned := True,
                caller := w\<lparr>printed := printed w @ [Complete (nTotal s) (nTotal s), ClearLine]\<rparr>\<rparr>)
      else None)"

text \<open>A run: the steps of a schedule, one after the other.\<close>

fun run :: "(HttpResult \<Rightarrow> 'c \<Rightarrow> bool \<times> 'c) \<Rightarrow> action list \<Rightarrow> 'c batch \<Rightarrow> 'c batch option" where
  "run callback [] s = Some s"
| "run callback (a # as) s =
     (case step callback a s of
        None \<Rightarrow> None
      | Some s' \<Rightarrow> run callback as s')"

text \<open>
  \<open>GetURLBatch\<close> under a schedule of its goroutines: it has nothing to do, or panics
  making its channels, or the schedule is none of its runs, or it reaches a state.
\<close>

datatype 'c progress = ReturnedAtOnce | Panics | NoRun | Reached "'c batch"

definition GetURLBatch ::
  "action list \<Rightarrow> string list \<Rightarrow> bool \<Rightarrow> (HttpResult \<Rightarrow> 'c \<Rightarrow> bool \<times> 'c) \<Rightarrow> int \<Rightarrow> bool \<Rightarrow>
   globals \<Rightarrow> 'c world \<Rightarrow> 'c progress" where
  "GetURLBatch sched urlList useSSL callback threads followRedirects g w =
     (case GetURLBatch_launch urlList useSSL threads followRedirects g w of
        NothingToDo \<Rightarrow> ReturnedAtOnce
      | MakeChanPanics \<Rightarrow> Panics
      | Launched s \<Rightarrow>
          (case run callback sched s of
             None \<Rightarrow> NoRun
           | Some s' \<Rightarrow> Reached s'))"

text \<open>
  The requests sent while \<open>aborted\<close> was set, and the workers that have loaded
  \<open>aborted\<close> as 0 for their URL and have not sent its request yet.
\<close>

definition lateRequests :: "'c batch \<Rightarrow> (string \<times> int) list" where
  "lateRequests s = filter (\<lambda>(u, flag). flag \<noteq> 0) (requests s)"

fun pastCheck :: "worker \<Rightarrow> bool" where
  "pastCheck (Admitting u) = True"
| "pastCheck (Requesting u) = True"
| "pastCheck wk = False"

definition admitted :: "'c batch \<Rightarrow> nat" where
  "admitted s = length (filter pastCheck (workers s))"

text \<open>The URL a worker holds, from receiving it until the answer to its request.\<close>

fun workerURL :: "worker \<Rightarrow> string option" where
  "workerURL (Loading u) = Some u"
| "workerURL (Admitting u) = Some u"
| "workerURL (Requesting u) = Some u"
| "workerURL (Awaiting u) = Some u"
| "workerURL wk = None"

text \<open>
  Every URL the batch still has to feed, has queued, holds in a worker or has requested
  is one of \<open>V\<close>.
\<close>

definition onlyFrom :: "string set \<Rightarrow> 'c batch \<Rightarrow> bool" where
  "onlyFrom V s \<longleftrightarrow>
     set (feed s) \<subseteq> V \<and>
     (\<forall>u. feeder s = FeederSend u \<longrightarrow> u \<in> V) \<and>
     set (jobs s) \<subseteq> V \<and>
     (\<forall>wk \<in> set (workers s). \<forall>u. workerURL wk = Some u \<longrightarrow> u \<in> V) \<and>
     (\<forall>(r, flag) \<in> set (requests s). \<exists>u \<in> V. r = proto s @ u)"

text \<open>
  The invariant of the abort flag: no request has been sent with the flag set while it
  is still 0, and once it is set the requests sent under it, with the workers past their
  check, are no more than the workers.
\<close>

definition lateInv :: "'c batch \<Rightarrow> bool" where
  "lateInv s \<longleftrightarrow>
     (aborted s = 0 \<longrightarrow> lateRequests s = []) \<and>
     (aborted s \<noteq> 0 \<longrightarrow> length (lateRequests s) + admitted s \<le> length (workers s))"

section \<open>Package-level state\<close>

text \<open>
  The package-level variables the checks share: the rate limiter's, and \<open>hasFuncs\<close>, the
  list of project/region URLs of the cloud-function check. The statements of the
  program that assign them are the two assignments of \<open>InitRateLimiter\<close>, the increment
  and the two stores of \<open>rateLimitCheck\<close>, the reset \<open>hasFuncs = nil\<close> at the head of
  \<open>checkFunctions\<close>, and the append to \<open>hasFuncs\<close> in \<open>printFunctionsResponse1\<close> on status
  302 (what that callback prints is left out).
\<close>

record package =
  limiter :: globals
  hasFuncs :: "string list"

definition resetHasFuncs :: "package \<Rightarrow> package" where
  "resetHasFuncs p = p\<lparr>hasFuncs := []\<rparr>"

definition printFunctionsResponse1 :: "HttpResult \<Rightarrow> package \<Rightarrow> bool \<times> package" where
  "printFunctionsResponse1 result p =
     (if StatusCode result = 404 then (False, p)
      else if StatusCode result = 302 then (False, p\<lparr>hasFuncs := hasFuncs p @ [URL result]\<rparr>)
      else (False, p))"

datatype package_call =
    CallInitRateLimiter int int
  | CallRateLimitCheck
  | CallResetHasFuncs
  | CallPrintFunctionsResponse1 HttpResult

fun perform :: "package_call \<Rightarrow> package \<Rightarrow> package option" where
  "perform (CallInitRateLimiter threshold sleep) p =
     Some (p\<lparr>limiter := InitRateLimiter threshold sleep (limiter p)\<rparr>)"
| "perform CallRateLimitCheck p =
     (case rateLimitCheck (limiter p) of
        None \<Rightarrow> None
      | Some g \<Rightarrow> Some (p\<lparr>limiter := g\<rparr>))"
| "perform CallResetHasFuncs p = Some (resetHasFuncs p)"
| "perform (CallPrintFunctionsResponse1 result) p = Some (snd (printFunctionsResponse1 result p))"

fun performAll :: "package_call list \<Rightarrow> package \<Rightarrow> package option" where
  "performAll [] p = Some p"
| "performAll (c # cs) p =
     (case perform c p of
        None \<Rightarrow> None
      | Some p' \<Rightarrow> performAll cs p')"

section \<open>Properties of the domain validator\<close>

lemma Split_not_Nil: "Split s sep \<noteq> []"
  by (induction s) (auto split: list.splits)

lemma Join_Split: "Join (Split s sep) sep = s"
proof (induction s)
  case Nil
  show ?case by simp
next
  case (Cons c cs)
  obtain l ls where sp: "Split cs sep = l # ls"
    using Split_not_Nil [of cs sep] by (cases "Split cs sep") auto
  with Cons show ?case by (cases ls) auto
qed

lemma Split_labels_no_sep: "l \<in> set (Split s sep) \<Longrightarrow> sep \<notin> set l"
proof (induction s arbitrary: l)
  case Nil
  then show ?case by simp
next
  case (Cons c cs)
  obtain k ks where sp: "Split cs sep = k # ks"
    using Split_not_Nil [of cs sep] by (cases "Split cs sep") auto
  from Cons.prems sp Cons.IH show ?case
    by (auto split: if_splits)
qed

lemma labelsOk_iff:
  "labelsOk ls \<longleftrightarrow> (\<forall>l \<in> set ls. 1 \<le> length l \<and> length l \<le> 63)"
  by (induction ls) (auto simp: Let_def Suc_le_eq)

text \<open>
  C5. \<open>IsValidDomain\<close> returns true if and only if the name is at most 253 bytes long
  and every dot-separated label of it is between 1 and 63 bytes long. The function is
  a pure function of the name: it reads and writes no state.
\<close>

theorem IsValidDomain_iff:
  "IsValidDomain name \<longleftrightarrow>
     length name \<le> 253 \<and>
     (\<forall>label \<in> set (Split name CHR ''.''). 1 \<le> length label \<and> length label \<le> 63)"
  by (auto simp: IsValidDomain_def labelsOk_iff)

theorem IsValidDomain_iff_witness:
  "IsValidDomain ''ab.example.com'' \<and> \<not> IsValidDomain ''ab..com''"
  using IsValidDomain_iff [of "''ab.example.com''"] IsValidDomain_iff [of "''ab..com''"]
  by simp

section \<open>Properties of the rate limiter\<close>

lemma waitWhilePaused_clear: "rlPaused g = 0 \<Longrightarrow> waitWhilePaused g = Some g"
  by (subst waitWhilePaused.simps) simp

lemma go_rem_zero_iff: "k smod l = 0 \<longleftrightarrow> l dvd k" for k l :: int
  by (auto simp: signed_modulo_int_def sgn_if)

lemma wrap64_id: "int64_range x \<Longrightarrow> wrap64 x = x"
  by (simp add: wrap64_def int64_range_def)

lemma rateLimitCheck_disabled: "rlThreshold g \<le> 0 \<Longrightarrow> rateLimitCheck g = Some g"
  by (simp add: rateLimitCheck_def)

lemma rateLimitCheck_step:
  assumes "0 < rlThreshold g" and "rlPaused g = 0"
  shows "rateLimitCheck g =
           Some (g\<lparr>rlCount := wrap64 (rlCount g + 1),
                   trace := trace g @
                     (if rlThreshold g dvd wrap64 (rlCount g + 1)
                      then [StorePaused 1, PrintRateLimit (wrap64 (rlCount g + 1)) (rlSleep g),
                            PauseSleep (rlSleep g), StorePaused 0]
                      else [])\<rparr>)"
  using assms
  by (simp add: rateLimitCheck_def waitWhilePaused_clear Let_def go_rem_zero_iff)

lemma pauseEvents_append: "pauseEvents (xs @ ys) = pauseEvents xs @ pauseEvents ys"
  by (induction xs rule: pauseEvents.induct) auto

lemma admitRequests_run:
  assumes "0 < rlThreshold g" "rlPaused g = 0" "0 \<le> rlCount g" "rlCount g + int n < 2 ^ 63"
  shows "\<exists>g'. admitRequests n g = Some g' \<and> rlCount g' = rlCount g + int n \<and>
           rlPaused g' = 0 \<and> rlThreshold g' = rlThreshold g \<and>
           pauseEvents (trace g') =
             pauseEvents (trace g) @
             filter (\<lambda>k. rlThreshold g dvd k) [rlCount g + 1 .. rlCount g + int n]"
  using assms
proof (induction n arbitrary: g)
  case 0
  then show ?case by simp
next
  case (Suc n)
  let ?c = "rlCount g + 1"
  define g1 where "g1 = g\<lparr>rlCount := ?c,
      trace := trace g @
        (if rlThreshold g dvd ?c
         then [StorePaused 1, PrintRateLimit ?c (rlSleep g), PauseSleep (rlSleep g), StorePaused 0]
         else [])\<rparr>"
  have w: "wrap64 ?c = ?c"
    using Suc.prems by (intro wrap64_id) (simp add: int64_range_def)
  have rc: "rateLimitCheck g = Some g1"
    using rateLimitCheck_step [OF Suc.prems(1,2)] by (simp add: w g1_def cong: if_cong)
  have f: "rlCount g1 = ?c" "rlPaused g1 = 0" "rlThreshold g1 = rlThreshold g"
    using Suc.prems by (simp_all add: g1_def)
  have tr: "pauseEvents (trace g1) =
      pauseEvents (trace g) @ (if rlThreshold g dvd ?c then [?c] else [])"
    by (simp add: g1_def pauseEvents_append)
  have "\<exists>g'. admitRequests n g1 = Some g' \<and> rlCount g' = rlCount g1 + int n \<and>
           rlPaused g' = 0 \<and> rlThreshold g' = rlThreshold g1 \<and>
           pauseEvents (trace g') =
             pauseEvents (trace g1) @
             filter (\<lambda>k. rlThreshold g1 dvd k) [rlCount g1 + 1 .. rlCount g1 + int n]"
    using Suc.prems f by (intro Suc.IH) auto
  then obtain g' where g': "admitRequests n g1 = Some g'" "rlCount g' = rlCount g1 + int n"
           "rlPaused g' = 0" "rlThreshold g' = rlThreshold g1"
           "pauseEvents (trace g') =
             pauseEvents (trace g1) @
             filter (\<lambda>k. rlThreshold g1 dvd k) [rlCount g1 + 1 .. rlCount g1 + int n]"
    by blast
  have up: "[rlCount g + 1 .. rlCount g + int (Suc n)] = ?c # [?c + 1 .. ?c + int n]"
    by (subst upto_rec1) (auto simp: algebra_simps)
  have "admitRequests (Suc n) g = Some g'"
    using rc g'(1) by simp
  moreover have "rlCount g' = rlCount g + int (Suc n)"
    using g'(2) f(1) by simp
  moreover have "pauseEvents (trace g') =
             pauseEvents (trace g) @
             filter (\<lambda>k. rlThreshold g dvd k) [rlCount g + 1 .. rlCount g + int (Suc n)]"
    unfolding up using g'(5) f tr by simp
  ultimately show ?case
    using g'(3,4) f(3) by simp
qed

lemma count_multiples: "0 < t \<Longrightarrow> length (filter (\<lambda>k. t dvd k) [1 .. int n]) = n div nat t"
proof (induction n)
  case 0
  then show ?case by simp
next
  case (Suc n)
  have up: "[1 .. 1 + int n] = [1 .. int n] @ [int n + 1]"
    by (simp add: upto_rec2 add.commute)
  have d: "t dvd int n + 1 \<longleftrightarrow> Suc n mod nat t = 0"
    using Suc.prems
    by (metis dvd_eq_mod_eq_0 int_dvd_int_iff int_nat_eq of_nat_Suc of_nat_add of_nat_1 add.commute less_le_not_le nat_le_iff zero_less_imp_eq_int)
  show ?case using Suc by (simp add: up d div_Suc del: upto.simps)
qed



lemma startGlobals_simps:
  "rlCount (startGlobals t d) = 0" "rlPaused (startGlobals t d) = 0"
  "rlThreshold (startGlobals t d) = t" "rlSleep (startGlobals t d) = d"
  "trace (startGlobals t d) = []"
  by (simp_all add: startGlobals_def InitRateLimiter_def)

text \<open>
  C4. With no threshold configured (\<open>rlThreshold \<le> 0\<close>) \<open>rateLimitCheck\<close> changes nothing.
  With a threshold \<open>T > 0\<close>, a call increments the global counter, and it pauses (sets
  the paused flag, prints, sleeps, clears the flag) exactly when the incremented count
  is a multiple of \<open>T\<close>. Hence \<open>N\<close> requests admitted one after the other by a single
  worker, starting from counter 0, cause \<open>N div T\<close> pause events, at the counts that
  are multiples of \<open>T\<close> (\<open>N\<close> below \<open>2^63\<close>, what the 64-bit counter holds); with threshold
  5 and 12 requests these are the two pauses after request 5 and request 10.
\<close>

theorem rateLimitCheck_pauses:
  "(rlThreshold g \<le> 0 \<longrightarrow> rateLimitCheck g = Some g) \<and>
   (0 < rlThreshold g \<and> rlPaused g = 0 \<longrightarrow>
      rateLimitCheck g =
        Some (g\<lparr>rlCount := wrap64 (rlCount g + 1),
                trace := trace g @
                  (if rlThreshold g dvd wrap64 (rlCount g + 1)
                   then [StorePaused 1, PrintRateLimit (wrap64 (rlCount g + 1)) (rlSleep g),
                         PauseSleep (rlSleep g), StorePaused 0]
                   else [])\<rparr>)) \<and>
   (0 < T \<and> int N < 2 ^ 63 \<longrightarrow>
      (\<exists>g'. admitRequests N (startGlobals T d) = Some g' \<and>
            rlCount g' = int N \<and> rlPaused g' = 0 \<and>
            pauseEvents (trace g') = filter (\<lambda>k. T dvd k) [1 .. int N] \<and>
            length (pauseEvents (trace g')) = N div nat T)) \<and>
   (\<exists>g'. admitRequests 12 (startGlobals 5 d) = Some g' \<and>
         pauseEvents (trace g') = [5, 10])"
proof (intro conjI impI)
  show "rateLimitCheck g = Some g" if "rlThreshold g \<le> 0"
    using that by (rule rateLimitCheck_disabled)
next
  assume "0 < rlThreshold g \<and> rlPaused g = 0"
  then show "rateLimitCheck g =
        Some (g\<lparr>rlCount := wrap64 (rlCount g + 1),
                trace := trace g @
                  (if rlThreshold g dvd wrap64 (rlCount g + 1)
                   then [StorePaused 1, PrintRateLimit (wrap64 (rlCount g + 1)) (rlSleep g),
                         PauseSleep (rlSleep g), StorePaused 0]
                   else [])\<rparr>)"
    by (simp add: rateLimitCheck_step)
next
  assume a: "0 < T \<and> int N < 2 ^ 63"
  let ?g = "startGlobals T d"
  have "\<exists>g'. admitRequests N ?g = Some g' \<and> rlCount g' = rlCount ?g + int N \<and>
           rlPaused g' = 0 \<and> rlThreshold g' = rlThreshold ?g \<and>
           pauseEvents (trace g') =
             pauseEvents (trace ?g) @
             filter (\<lambda>k. rlThreshold ?g dvd k) [rlCount ?g + 1 .. rlCount ?g + int N]"
    using a by (intro admitRequests_run) (simp_all add: startGlobals_simps)
  then obtain g' where "admitRequests N ?g = Some g'" "rlCount g' = int N" "rlPaused g' = 0"
      "pauseEvents (trace g') = filter (\<lambda>k. T dvd k) [1 .. int N]"
    by (auto simp: startGlobals_simps)
  then show "\<exists>g'. admitRequests N ?g = Some g' \<and>
            rlCount g' = int N \<and> rlPaused g' = 0 \<and>
            pauseEvents (trace g') = filter (\<lambda>k. T dvd k) [1 .. int N] \<and>
            length (pauseEvents (trace g')) = N div nat T"
    using a by (simp add: count_multiples)
next
  let ?g = "startGlobals 5 d"
  have "\<exists>g'. admitRequests 12 ?g = Some g' \<and> rlCount g' = rlCount ?g + int 12 \<and>
           rlPaused g' = 0 \<and> rlThreshold g' = rlThreshold ?g \<and>
           pauseEvents (trace g') =
             pauseEvents (trace ?g) @
             filter (\<lambda>k. rlThreshold ?g dvd k) [rlCount ?g + 1 .. rlCount ?g + int 12]"
    by (intro admitRequests_run) (simp_all add: startGlobals_simps)
  moreover have "filter (\<lambda>k. 5 dvd k) [1 .. (12::int)] = [5, 10]"
    by code_simp
  ultimately show "\<exists>g'. admitRequests 12 ?g = Some g' \<and> pauseEvents (trace g') = [5, 10]"
    by (auto simp: startGlobals_simps)
qed

theorem rateLimitCheck_pauses_witness:
  "rateLimitCheck (startGlobals 0 1000000000) = Some (startGlobals 0 1000000000) \<and>
   (\<exists>g'. rateLimitCheck (startGlobals 1 1000000000) = Some g' \<and> rlCount g' = 1 \<and>
      pauseEvents (trace g') = [1]) \<and>
   (\<exists>g'. admitRequests 7 (startGlobals 3 1000000000) = Some g' \<and>
      length (pauseEvents (trace g')) = 2)"
  using rateLimitCheck_pauses [of "startGlobals 0 1000000000" 3 7 1000000000]
    rateLimitCheck_pauses [of "startGlobals 1 1000000000" 3 7 1000000000]
  by (auto simp: startGlobals_simps wrap64_def)

section \<open>Properties of dnsLookup\<close>

lemma dnsLookupFrom_done: "dnsLookupFrom (Suc (Suc 0)) L r name t = []"
  by (subst dnsLookupFrom.simps) simp

lemma dnsLookupFrom_retry:
  "dnsLookupFrom (Suc 0) L r name t =
     (case L r t name (Suc 0) of
        None \<Rightarrow> name
      | Some err \<Rightarrow>
          (case findDNSError err of
             None \<Rightarrow> []
           | Some (isNotFound, isTimeout) \<Rightarrow>
               if isNotFound then [] else if isTimeout then [] else BREAKOUT_DNS_ERROR))"
  by (subst dnsLookupFrom.simps) (simp add: dnsLookupFrom_done split: option.splits)

lemma dnsLookup_unfold:
  "dnsLookup L r name t =
     (case L r t name 0 of
        None \<Rightarrow> name
      | Some err \<Rightarrow>
          (case findDNSError err of
             None \<Rightarrow> []
           | Some (isNotFound, isTimeout) \<Rightarrow>
               if isNotFound then []
               else if isTimeout then dnsLookupFrom (Suc 0) L r name t
               else BREAKOUT_DNS_ERROR))"
  unfolding dnsLookup_def by (subst dnsLookupFrom.simps) (simp split: option.splits)

lemma outcomeOf_simps:
  "outcomeOf [] = NotFound" "outcomeOf BREAKOUT_DNS_ERROR = Fatal"
  "name \<noteq> [] \<Longrightarrow> name \<noteq> BREAKOUT_DNS_ERROR \<Longrightarrow> outcomeOf name = Resolved name"
  by (simp_all add: outcomeOf_def BREAKOUT_DNS_ERROR_def)

lemma dnsLookup_skips_non_dns_error:
  "L r t name 0 = Some err \<Longrightarrow> findDNSError err = None \<Longrightarrow> dnsLookup L r name t = []"
  by (simp add: dnsLookup_unfold)

text \<open>
  C1. For every name submitted to \<open>dnsLookup\<close>, with answers as a \<open>*net.Resolver\<close> gives
  them, the outcome follows the policy: a lookup that succeeds resolves the name, which
  is returned; a name-not-found error gives not-found; a timeout is retried exactly
  once, under a fresh timeout, and the retry decides, a second timeout giving not-found;
  any other resolver error is fatal. The returned string is the name, the empty string
  or the sentinel, for exactly one of the three outcomes, and the consuming loop reads
  that outcome back from it (for the names a lookup can succeed on, which are neither
  empty nor the sentinel). The outcome depends on the first answer and, after a timeout
  only, on the second answer, and on no further one.
\<close>

theorem dnsLookup_policy:
  "(resolverAnswer (L r t name 0) \<and>
    (answerKind (L r t name 0) = TimedOut \<longrightarrow> resolverAnswer (L r t name 1)) \<longrightarrow>
      dnsLookup L r name t =
        returnedFor (policyOutcome name (answerKind (L r t name 0)) (answerKind (L r t name 1))) \<and>
      (name \<noteq> [] \<and> name \<noteq> BREAKOUT_DNS_ERROR \<longrightarrow>
         outcomeOf (dnsLookup L r name t) =
           policyOutcome name (answerKind (L r t name 0)) (answerKind (L r t name 1)))) \<and>
   (\<forall>L'. L' r t name 0 = L r t name 0 \<and> L' r t name 1 = L r t name 1 \<longrightarrow>
      dnsLookup L' r name t = dnsLookup L r name t) \<and>
   (answerKind (L r t name 0) \<noteq> TimedOut \<longrightarrow>
      (\<forall>L'. L' r t name 0 = L r t name 0 \<longrightarrow> dnsLookup L' r name t = dnsLookup L r name t))"
  by (auto simp: dnsLookup_unfold dnsLookupFrom_retry outcomeOf_simps policyOutcome_def
        answerKind_def resolverAnswer_def
      split: option.splits prod.splits if_splits)

theorem dnsLookup_policy_witness:
  "outcomeOf (dnsLookup (\<lambda>r t n k. if k = 0 then Some (DNSError False True) else None)
       DefaultResolver ''a.example.com'' (5 * Second)) = Resolved ''a.example.com'' \<and>
   outcomeOf (dnsLookup (\<lambda>r t n k. Some (DNSError False True))
       DefaultResolver ''a.example.com'' (5 * Second)) = NotFound \<and>
   outcomeOf (dnsLookup (\<lambda>r t n k. Some (DNSError True False))
       DefaultResolver ''a.example.com'' (5 * Second)) = NotFound \<and>
   outcomeOf (dnsLookup (\<lambda>r t n k. Some (DNSError False False))
       DefaultResolver ''a.example.com'' (5 * Second)) = Fatal \<and>
   outcomeOf (dnsLookup (\<lambda>r t n k. if k = 0 then Some (DNSError False True)
                                      else Some (DNSError False False))
       DefaultResolver ''a.example.com'' (5 * Second)) = Fatal \<and>
   dnsLookup (\<lambda>r t n k. None) DefaultResolver ''a.example.com'' (5 * Second) = ''a.example.com''"
proof -
  have n: "''a.example.com'' \<noteq> [] \<and> ''a.example.com'' \<noteq> BREAKOUT_DNS_ERROR"
    by (simp add: BREAKOUT_DNS_ERROR_def)
  note p = dnsLookup_policy [where name = "''a.example.com''" and r = DefaultResolver
      and t = "5 * Second", THEN conjunct1, rule_format]
  have h1: "resolverAnswer ((\<lambda>r t n k. if k = 0 then Some (DNSError False True) else None)
                DefaultResolver (5 * Second) ''a.example.com'' 0) \<and>
      (answerKind ((\<lambda>r t n k. if k = 0 then Some (DNSError False True) else None)
                DefaultResolver (5 * Second) ''a.example.com'' 0) = TimedOut \<longrightarrow>
       resolverAnswer ((\<lambda>r t n k. if k = 0 then Some (DNSError False True) else None)
                DefaultResolver (5 * Second) ''a.example.com'' 1))"
    by (simp add: resolverAnswer_def)
  have h2: "resolverAnswer ((\<lambda>r t n k. Some (DNSError nf to))
                DefaultResolver (5 * Second) ''a.example.com'' 0) \<and>
      (answerKind ((\<lambda>r t n k. Some (DNSError nf to))
                DefaultResolver (5 * Second) ''a.example.com'' 0) = TimedOut \<longrightarrow>
       resolverAnswer ((\<lambda>r t n k. Some (DNSError nf to))
                DefaultResolver (5 * Second) ''a.example.com'' 1))" for nf to
    by (simp add: resolverAnswer_def)
  have h3: "resolverAnswer ((\<lambda>r t n k. if k = 0 then Some (DNSError False True)
                                      else Some (DNSError False False))
                DefaultResolver (5 * Second) ''a.example.com'' 0) \<and>
      (answerKind ((\<lambda>r t n k. if k = 0 then Some (DNSError False True)
                                      else Some (DNSError False False))
                DefaultResolver (5 * Second) ''a.example.com'' 0) = TimedOut \<longrightarrow>
       resolverAnswer ((\<lambda>r t n k. if k = 0 then Some (DNSError False True)
                                      else Some (DNSError False False))
                DefaultResolver (5 * Second) ''a.example.com'' 1))"
    by (simp add: resolverAnswer_def)
  have h4: "resolverAnswer ((\<lambda>r t n k. None)
                DefaultResolver (5 * Second) ''a.example.com'' 0) \<and>
      (answerKind ((\<lambda>r t n k. None)
                DefaultResolver (5 * Second) ''a.example.com'' 0) = TimedOut \<longrightarrow>
       resolverAnswer ((\<lambda>r t n k. None)
                DefaultResolver (5 * Second) ''a.example.com'' 1))"
    by (simp add: resolverAnswer_def)
  have "outcomeOf (dnsLookup (\<lambda>r t n k. if k = 0 then Some (DNSError False True) else None)
       DefaultResolver ''a.example.com'' (5 * Second)) = Resolved ''a.example.com''"
    using p [where L = "\<lambda>r t n k. if k = 0 then Some (DNSError False True) else None",
        OF h1, THEN conjunct2, rule_format, OF n]
    by (simp add: answerKind_def policyOutcome_def)
  moreover have "outcomeOf (dnsLookup (\<lambda>r t n k. Some (DNSError False True))
       DefaultResolver ''a.example.com'' (5 * Second)) = NotFound"
    using p [where L = "\<lambda>r t n k. Some (DNSError False True)",
        OF h2 [of False True], THEN conjunct2, rule_format, OF n]
    by (simp add: answerKind_def policyOutcome_def)
  moreover have "outcomeOf (dnsLookup (\<lambda>r t n k. Some (DNSError True False))
       DefaultResolver ''a.example.com'' (5 * Second)) = NotFound"
    using p [where L = "\<lambda>r t n k. Some (DNSError True False)",
        OF h2 [of True False], THEN conjunct2, rule_format, OF n]
    by (simp add: answerKind_def policyOutcome_def)
  moreover have "outcomeOf (dnsLookup (\<lambda>r t n k. Some (DNSError False False))
       DefaultResolver ''a.example.com'' (5 * Second)) = Fatal"
    using p [where L = "\<lambda>r t n k. Some (DNSError False False)",
        OF h2 [of False False], THEN conjunct2, rule_format, OF n]
    by (simp add: answerKind_def policyOutcome_def)
  moreover have "outcomeOf (dnsLookup (\<lambda>r t n k. if k = 0 then Some (DNSError False True)
                                      else Some (DNSError False False))
       DefaultResolver ''a.example.com'' (5 * Second)) = Fatal"
    using p [where L = "\<lambda>r t n k. if k = 0 then Some (DNSError False True)
                                      else Some (DNSError False False)",
        OF h3, THEN conjunct2, rule_format, OF n]
    by (simp add: answerKind_def policyOutcome_def)
  moreover have "dnsLookup (\<lambda>r t n k. None) DefaultResolver ''a.example.com'' (5 * Second)
       = ''a.example.com''"
    using p [where L = "\<lambda>r t n k. None", OF h4, THEN conjunct1]
    by (simp add: answerKind_def policyOutcome_def)
  ultimately show ?thesis by blast
qed

section \<open>Properties of the DNS batch\<close>

lemma breakout_not_Nil: "BREAKOUT_DNS_ERROR \<noteq> []"
  by (simp add: BREAKOUT_DNS_ERROR_def)

lemma consumeResults_no_fatal:
  "BREAKOUT_DNS_ERROR \<notin> set xs \<Longrightarrow>
   consumeResults cb xs w acc =
     (w\<lparr>cbState := applyCallback cb (filter (\<lambda>n. n \<noteq> []) xs) (cbState w)\<rparr>,
      Returned (acc @ filter (\<lambda>n. n \<noteq> []) xs))"
proof (induction xs arbitrary: w acc)
  case Nil
  show ?case by simp
next
  case (Cons x xs)
  then show ?case by (cases cb) (auto simp: Let_def)
qed

lemma consumeResults_append:
  "consumeResults cb xs w acc = (w', Returned names) \<Longrightarrow>
   consumeResults cb (xs @ ys) w acc = consumeResults cb ys w' names"
proof (induction xs arbitrary: w acc)
  case Nil
  then show ?case by simp
next
  case (Cons x xs)
  then show ?case by (auto simp: Let_def split: if_splits)
qed

lemma consumeResults_fatal:
  assumes "BREAKOUT_DNS_ERROR \<notin> set pre"
  shows "consumeResults cb (pre @ BREAKOUT_DNS_ERROR # post) w acc =
     (w\<lparr>cbState := applyCallback cb (filter (\<lambda>n. n \<noteq> []) pre) (cbState w),
        printed := printed w @ [ErrorQueryingNameservers, TrySettingNs]\<rparr>, Exited 1)"
  using consumeResults_append [OF consumeResults_no_fatal [OF assms, of cb w acc]]
  by (simp add: breakout_not_Nil)

lemma spawnWorkers_eq: "spawnWorkers w n started = started + nat (n - w)"
proof (induction w n started rule: spawnWorkers.induct)
  case (1 w n started)
  show ?case
  proof (cases "w < n")
    case True
    with 1 show ?thesis by (subst spawnWorkers.simps) (simp add: nat_diff_distrib')
  next
    case False
    then show ?thesis by (subst spawnWorkers.simps) simp
  qed
qed

lemma dnsConcurrency_le: "dnsConcurrency threads n \<le> 500"
  by (simp add: dnsConcurrency_def Let_def)

lemma wrap64_small: "- (2 ^ 63) \<le> x \<Longrightarrow> x < 2 ^ 63 \<Longrightarrow> wrap64 x = x"
  by (simp add: wrap64_id int64_range_def)

lemma keepValid_eq: "keepValid names acc = acc @ filter IsValidDomain names"
  by (induction names arbitrary: acc) simp_all

text \<open>
  C2. In a DNS batch, when the results reach the consuming loop in an order whose first
  fatal result comes after the results \<open>pre\<close>, the loop passes the resolved names of
  \<open>pre\<close> to the callback, prints the two lines of guidance and ends the whole process
  with status 1. The batch returns no list, and nothing that arrives after the fatal
  result (\<open>post\<close>) reaches the callback: the outcome is the same for every \<open>post\<close>.
\<close>

theorem FastDNSLookup_fatal:
  assumes "names \<noteq> []"
    and "chooseResolver e nameserver nameserverFile w = (w1, Returned (resolver, lookupTimeout))"
    and "arrivals (spawnWorkers 0 (dnsConcurrency threads (int (length (keepValid names [])))) 0)
           sched (lookupResults net resolver lookupTimeout (keepValid names []))
         = pre @ BREAKOUT_DNS_ERROR # post"
    and "BREAKOUT_DNS_ERROR \<notin> set pre"
  shows "FastDNSLookup e net sched names nameserver nameserverFile callback threads w =
           (w1\<lparr>cbState := applyCallback callback (filter (\<lambda>n. n \<noteq> []) pre) (cbState w1),
               printed := printed w1 @
                 [BruteForcingNames (length names), ErrorQueryingNameservers, TrySettingNs]\<rparr>,
            Exited 1)"
proof -
  let ?filtered = "keepValid names []"
  let ?c = "dnsConcurrency threads (int (length ?filtered))"
  let ?workers = "spawnWorkers 0 ?c 0"
  have ne: "arrivals ?workers sched (lookupResults net resolver lookupTimeout ?filtered) \<noteq> []"
    using assms(3) by simp
  then have wk: "?workers \<noteq> 0"
    by (auto simp: arrivals_def split: if_splits)
  then have cpos: "0 < ?c"
    by (simp add: spawnWorkers_eq)
  have "?c \<le> 500" by (rule dnsConcurrency_le)
  with cpos have chan: "\<not> wrap64 (?c * 2) < 0"
    by (simp add: wrap64_small)
  have fne: "length ?filtered \<noteq> 0"
    using ne wk by (auto simp: arrivals_def lookupResults_def)
  show ?thesis
    using assms(1,2) fne chan
    by (simp add: FastDNSLookup_def Let_def assms(3) consumeResults_fatal [OF assms(4)])
qed


theorem FastDNSLookup_fatal_witness:
  "FastDNSLookup \<lparr>files = (\<lambda>p. None), TrimSpace = (\<lambda>s. s)\<rparr>
     (\<lambda>i r t n k. if i = 1 then Some (DNSError False False) else None) [0, 1, 2]
     [''a.com'', ''b.com'', ''c.com''] [] [] (Some (\<lambda>n s. s @ [n])) 1
     \<lparr>printed = [], cbState = []\<rparr>
   = (\<lparr>printed = [BruteForcingNames 3, ErrorQueryingNameservers, TrySettingNs],
       cbState = [''a.com'']\<rparr>, Exited 1)"
proof -
  let ?e = "\<lparr>files = (\<lambda>p. None), TrimSpace = (\<lambda>s. s)\<rparr>"
  let ?net = "\<lambda>i r t n k. if i = (1::nat) then Some (DNSError False False) else None"
  let ?names = "[''a.com'', ''b.com'', ''c.com'']"
  let ?w = "\<lparr>printed = [], cbState = [] :: string list\<rparr>"
  have h1: "?names \<noteq> []" by simp
  have h2: "chooseResolver ?e [] [] ?w = (?w, Returned (DefaultResolver, 5 * Second))"
    by (simp add: chooseResolver_def useCustomNS_def)
  have h3: "arrivals (spawnWorkers 0 (dnsConcurrency 1 (int (length (keepValid ?names [])))) 0)
           [0, 1, 2] (lookupResults ?net DefaultResolver (5 * Second) (keepValid ?names []))
         = [''a.com''] @ BREAKOUT_DNS_ERROR # [''c.com'']"
    by code_simp
  have h4: "BREAKOUT_DNS_ERROR \<notin> set [''a.com'']"
    by (simp add: BREAKOUT_DNS_ERROR_def)
  show ?thesis
    using FastDNSLookup_fatal [OF h1 h2 h3 h4, of "Some (\<lambda>n s. s @ [n])"] by simp
qed

text \<open>
  C6, as the code has it. In a DNS batch with at least one caller thread (ten times
  which fits the 64-bit \<open>int\<close>) and \<open>n \<ge> 1\<close> valid names, the number of workers started
  is \<open>min 500 (min (threads * 10) n)\<close>, which for these thread counts is the
  \<open>min 500 (min (max (threads * 10) 1) n)\<close> of the specification, and is at least 1. The code has
  no lower bound of 1: with a thread count of 0 or less no worker is started.
\<close>

theorem dnsConcurrency_workers:
  "(1 \<le> threads \<and> threads * 10 < 2 ^ 63 \<and> 1 \<le> n \<longrightarrow>
      int (spawnWorkers 0 (dnsConcurrency threads n) 0) = min 500 (min (max (threads * 10) 1) n) \<and>
      int (spawnWorkers 0 (dnsConcurrency threads n) 0) = min 500 (min (threads * 10) n) \<and>
      1 \<le> spawnWorkers 0 (dnsConcurrency threads n) 0) \<and>
   (threads \<le> 0 \<and> - (2 ^ 63) \<le> threads * 10 \<longrightarrow>
      spawnWorkers 0 (dnsConcurrency threads n) 0 = 0)"
proof (intro conjI impI)
  assume a: "1 \<le> threads \<and> threads * 10 < 2 ^ 63 \<and> 1 \<le> n"
  then have w: "wrap64 (threads * 10) = threads * 10"
    by (intro wrap64_id) (simp add: int64_range_def)
  show "int (spawnWorkers 0 (dnsConcurrency threads n) 0) = min 500 (min (max (threads * 10) 1) n)"
    using a by (simp add: spawnWorkers_eq dnsConcurrency_def w Let_def)
  show "int (spawnWorkers 0 (dnsConcurrency threads n) 0) = min 500 (min (threads * 10) n)"
    using a by (simp add: spawnWorkers_eq dnsConcurrency_def w Let_def)
  show "1 \<le> spawnWorkers 0 (dnsConcurrency threads n) 0"
    using a by (auto simp: spawnWorkers_eq dnsConcurrency_def w Let_def)
next
  assume a: "threads \<le> 0 \<and> - (2 ^ 63) \<le> threads * 10"
  then have w: "wrap64 (threads * 10) = threads * 10"
    by (intro wrap64_id) (simp add: int64_range_def)
  show "spawnWorkers 0 (dnsConcurrency threads n) 0 = 0"
    using a by (simp add: spawnWorkers_eq dnsConcurrency_def w Let_def)
qed

theorem dnsConcurrency_workers_witness:
  "spawnWorkers 0 (dnsConcurrency 25 1000) 0 = 250 \<and>
   spawnWorkers 0 (dnsConcurrency 25 7) 0 = 7 \<and>
   spawnWorkers 0 (dnsConcurrency 80 1000) 0 = 500 \<and>
   spawnWorkers 0 (dnsConcurrency (-1) 1000) 0 = 0"
  using dnsConcurrency_workers [of 25 1000] dnsConcurrency_workers [of 25 7]
    dnsConcurrency_workers [of 80 1000] dnsConcurrency_workers [of "-1" 1000]
  by simp

theorem dnsConcurrency_zero_threads_counterexample:
  "spawnWorkers 0 (dnsConcurrency 0 1) 0 = 0 \<and>
   int (spawnWorkers 0 (dnsConcurrency 0 1) 0) \<noteq> min 500 (min (max (0 * 10) 1) 1)"
  by (simp add: spawnWorkers_eq dnsConcurrency_def wrap64_def)

section \<open>Resolver selection and repeated runs\<close>

lemma dnsLookup_cong:
  "L r t name 0 = L' r t name 0 \<Longrightarrow> L r t name (Suc 0) = L' r t name (Suc 0) \<Longrightarrow>
   dnsLookup L r name t = dnsLookup L' r name t"
  by (simp add: dnsLookup_unfold dnsLookupFrom_retry split: option.splits)

lemma dialAddress_rotates:
  "nameservers \<noteq> [] \<Longrightarrow>
   dialAddress nameservers (i + length nameservers) = dialAddress nameservers i"
  by (simp add: dialAddress_def)

lemma chooseResolver_default_eq:
  "nameserverFile = [] \<Longrightarrow> nameserver = [] \<or> nameserver = ''1.1.1.1'' \<Longrightarrow>
   chooseResolver e nameserver nameserverFile w = (w, Returned (DefaultResolver, 5 * Second))"
  by (auto simp: chooseResolver_def useCustomNS_def)

lemma chooseResolver_custom_only:
  assumes "chooseResolver e nameserver nameserverFile w = (w', Returned (CustomResolver nsList, t))"
  shows "t = 3 * Second \<and> useCustomNS nameserver nameserverFile"
proof (cases "useCustomNS nameserver nameserverFile")
  case False
  with assms show ?thesis by (simp add: chooseResolver_def)
next
  case True
  with assms show ?thesis
    by (auto simp: chooseResolver_def split: if_splits prod.splits ending.splits)
qed

lemma FastDNSLookup_with_resolver:
  assumes "chooseResolver e nameserver nameserverFile w = (w1, Returned (resolver, lookupTimeout))"
    and "names \<noteq> []"
  shows "FastDNSLookup e net sched names nameserver nameserverFile callback threads w =
     (let w2 = w1\<lparr>printed := printed w1 @ [BruteForcingNames (length names)]\<rparr>;
          filtered = keepValid names [];
          c = dnsConcurrency threads (int (length filtered))
      in if filtered = [] then (w2, Returned [])
         else if wrap64 (c * 2) < 0 then (w2, Panicked)
         else
           (case consumeResults callback
                   (arrivals (spawnWorkers 0 c 0) sched
                      (map (\<lambda>i. dnsLookup (net i) resolver (filtered ! i) lookupTimeout)
                         [0..<length filtered]))
                   w2 [] of
              (w3, Returned validNames) \<Rightarrow>
                (w3\<lparr>printed := printed w3 @
                     [Complete (length filtered) (length filtered), ClearLine]\<rparr>,
                 Returned validNames)
            | (w3, stopped) \<Rightarrow> (w3, stopped)))"
  using assms by (simp add: FastDNSLookup_def Let_def lookupResults_def)

text \<open>
  C10. With no nameserver file and the nameserver string empty or \<open>1.1.1.1\<close> (the
  default of the \<open>-ns\<close> flag), \<open>FastDNSLookup\<close> selects the system resolver with the
  5-second timeout and prints nothing about it, and the batch is the batch whose every
  lookup is \<open>dnsLookup\<close> with that resolver and that timeout: its result does not depend
  on what the network would answer to any other resolver or timeout. A custom resolver
  is selected only when a nameserver file is given or the nameserver is neither empty
  nor \<open>1.1.1.1\<close>; then every lookup of the batch is made with it and the 3-second
  timeout. Without a file it is the resolver over the one given nameserver.
\<close>

theorem FastDNSLookup_resolver_selection:
  "(nameserverFile = [] \<and> (nameserver = [] \<or> nameserver = ''1.1.1.1'') \<longrightarrow>
      chooseResolver e nameserver nameserverFile w = (w, Returned (DefaultResolver, 5 * Second)) \<and>
      FastDNSLookup e net sched names nameserver nameserverFile callback threads w =
        (if names = [] then (w, Returned [])
         else
           let w2 = w\<lparr>printed := printed w @ [BruteForcingNames (length names)]\<rparr>;
               filtered = keepValid names [];
               c = dnsConcurrency threads (int (length filtered))
           in if filtered = [] then (w2, Returned [])
              else if wrap64 (c * 2) < 0 then (w2, Panicked)
              else
                (case consumeResults callback
                        (arrivals (spawnWorkers 0 c 0) sched
                           (map (\<lambda>i. dnsLookup (net i) DefaultResolver (filtered ! i) (5 * Second))
                              [0..<length filtered]))
                        w2 [] of
                   (w3, Returned validNames) \<Rightarrow>
                     (w3\<lparr>printed := printed w3 @
                          [Complete (length filtered) (length filtered), ClearLine]\<rparr>,
                      Returned validNames)
                 | (w3, stopped) \<Rightarrow> (w3, stopped))) \<and>
      FastDNSLookup e net sched names nameserver nameserverFile callback threads w =
        FastDNSLookup e (\<lambda>i r t. net i DefaultResolver (5 * Second)) sched names
          nameserver nameserverFile callback threads w) \<and>
   (\<forall>w' nsList t.
      chooseResolver e nameserver nameserverFile w = (w', Returned (CustomResolver nsList, t)) \<longrightarrow>
        t = 3 * Second \<and>
        (nameserverFile \<noteq> [] \<or> (nameserver \<noteq> [] \<and> nameserver \<noteq> ''1.1.1.1'')) \<and>
        (names \<noteq> [] \<longrightarrow>
           FastDNSLookup e net sched names nameserver nameserverFile callback threads w =
             (let w2 = w'\<lparr>printed := printed w' @ [BruteForcingNames (length names)]\<rparr>;
                  filtered = keepValid names [];
                  c = dnsConcurrency threads (int (length filtered))
              in if filtered = [] then (w2, Returned [])
                 else if wrap64 (c * 2) < 0 then (w2, Panicked)
                 else
                   (case consumeResults callback
                           (arrivals (spawnWorkers 0 c 0) sched
                              (map (\<lambda>i. dnsLookup (net i) (CustomResolver nsList) (filtered ! i)
                                          (3 * Second))
                                 [0..<length filtered]))
                           w2 [] of
                      (w3, Returned validNames) \<Rightarrow>
                        (w3\<lparr>printed := printed w3 @
                             [Complete (length filtered) (length filtered), ClearLine]\<rparr>,
                         Returned validNames)
                    | (w3, stopped) \<Rightarrow> (w3, stopped))))) \<and>
   (nameserverFile = [] \<and> nameserver \<noteq> [] \<and> nameserver \<noteq> ''1.1.1.1'' \<longrightarrow>
      chooseResolver e nameserver nameserverFile w =
        (w\<lparr>printed := printed w @ [UsingCustomNameservers]\<rparr>,
         Returned (CustomResolver [nameserver], 3 * Second))) \<and>
   \<not> useCustomNS nsFlagDefault []"
proof (intro conjI impI allI)
  assume a: "nameserverFile = [] \<and> (nameserver = [] \<or> nameserver = ''1.1.1.1'')"
  then show c: "chooseResolver e nameserver nameserverFile w =
      (w, Returned (DefaultResolver, 5 * Second))"
    by (simp add: chooseResolver_default_eq)
  show "FastDNSLookup e net sched names nameserver nameserverFile callback threads w =
        (if names = [] then (w, Returned [])
         else
           let w2 = w\<lparr>printed := printed w @ [BruteForcingNames (length names)]\<rparr>;
               filtered = keepValid names [];
               c = dnsConcurrency threads (int (length filtered))
           in if filtered = [] then (w2, Returned [])
              else if wrap64 (c * 2) < 0 then (w2, Panicked)
              else
                (case consumeResults callback
                        (arrivals (spawnWorkers 0 c 0) sched
                           (map (\<lambda>i. dnsLookup (net i) DefaultResolver (filtered ! i) (5 * Second))
                              [0..<length filtered]))
                        w2 [] of
                   (w3, Returned validNames) \<Rightarrow>
                     (w3\<lparr>printed := printed w3 @
                          [Complete (length filtered) (length filtered), ClearLine]\<rparr>,
                      Returned validNames)
                 | (w3, stopped) \<Rightarrow> (w3, stopped)))"
  proof (cases "names = []")
    case True
    then show ?thesis by (simp add: FastDNSLookup_def)
  next
    case False
    from FastDNSLookup_with_resolver [OF c False] False show ?thesis by simp
  qed
  have eq: "lookupResults net DefaultResolver (5 * Second) filtered =
      lookupResults (\<lambda>i r t. net i DefaultResolver (5 * Second)) DefaultResolver (5 * Second) filtered"
    for filtered
    unfolding lookupResults_def by (intro map_cong refl dnsLookup_cong)
  show "FastDNSLookup e net sched names nameserver nameserverFile callback threads w =
        FastDNSLookup e (\<lambda>i r t. net i DefaultResolver (5 * Second)) sched names
          nameserver nameserverFile callback threads w"
    by (simp add: FastDNSLookup_def c Let_def eq)
next
  fix w' nsList t
  assume c: "chooseResolver e nameserver nameserverFile w = (w', Returned (CustomResolver nsList, t))"
  from chooseResolver_custom_only [OF c]
  show t: "t = 3 * Second" and "nameserverFile \<noteq> [] \<or> (nameserver \<noteq> [] \<and> nameserver \<noteq> ''1.1.1.1'')"
    by (simp_all add: useCustomNS_def)
  assume n: "names \<noteq> []"
  from FastDNSLookup_with_resolver [OF c n]
  show "FastDNSLookup e net sched names nameserver nameserverFile callback threads w =
             (let w2 = w'\<lparr>printed := printed w' @ [BruteForcingNames (length names)]\<rparr>;
                  filtered = keepValid names [];
                  c = dnsConcurrency threads (int (length filtered))
              in if filtered = [] then (w2, Returned [])
                 else if wrap64 (c * 2) < 0 then (w2, Panicked)
                 else
                   (case consumeResults callback
                           (arrivals (spawnWorkers 0 c 0) sched
                              (map (\<lambda>i. dnsLookup (net i) (CustomResolver nsList) (filtered ! i)
                                          (3 * Second))
                                 [0..<length filtered]))
                           w2 [] of
                      (w3, Returned validNames) \<Rightarrow>
                        (w3\<lparr>printed := printed w3 @
                             [Complete (length filtered) (length filtered), ClearLine]\<rparr>,
                         Returned validNames)
                    | (w3, stopped) \<Rightarrow> (w3, stopped)))"
    unfolding t .
next
  assume "nameserverFile = [] \<and> nameserver \<noteq> [] \<and> nameserver \<noteq> ''1.1.1.1''"
  then show "chooseResolver e nameserver nameserverFile w =
        (w\<lparr>printed := printed w @ [UsingCustomNameservers]\<rparr>,
         Returned (CustomResolver [nameserver], 3 * Second))"
    by (simp add: chooseResolver_def useCustomNS_def newResolver_def)
next
  show "\<not> useCustomNS nsFlagDefault []"
    by (simp add: useCustomNS_def nsFlagDefault_def)
qed


theorem FastDNSLookup_resolver_selection_witness:
  "FastDNSLookup \<lparr>files = (\<lambda>p. None), TrimSpace = (\<lambda>s. s)\<rparr>
      (\<lambda>i r t n k. if r = DefaultResolver \<and> t = 5 * Second then None
                     else Some (DNSError False False))
      [1, 0] [''a.com'', ''b.com''] ''1.1.1.1'' [] None 25 \<lparr>printed = [], cbState = ()\<rparr>
     = (\<lparr>printed = [BruteForcingNames 2, Complete 2 2, ClearLine], cbState = ()\<rparr>,
        Returned [''b.com'', ''a.com'']) \<and>
   FastDNSLookup \<lparr>files = (\<lambda>p. None), TrimSpace = (\<lambda>s. s)\<rparr>
      (\<lambda>i r t n k. if r = DefaultResolver \<and> t = 5 * Second then None
                     else Some (DNSError False False))
      [1, 0] [''a.com'', ''b.com''] [] [] None 25 \<lparr>printed = [], cbState = ()\<rparr>
     = (\<lparr>printed = [BruteForcingNames 2, Complete 2 2, ClearLine], cbState = ()\<rparr>,
        Returned [''b.com'', ''a.com'']) \<and>
   FastDNSLookup \<lparr>files = (\<lambda>p. None), TrimSpace = (\<lambda>s. s)\<rparr>
      (\<lambda>i r t n k. if r = CustomResolver [''8.8.8.8''] \<and> t = 3 * Second then None
                     else Some (DNSError False False))
      [1, 0] [''a.com'', ''b.com''] ''8.8.8.8'' [] None 25 \<lparr>printed = [], cbState = ()\<rparr>
     = (\<lparr>printed = [UsingCustomNameservers, BruteForcingNames 2, Complete 2 2, ClearLine],
         cbState = ()\<rparr>,
        Returned [''b.com'', ''a.com''])"
proof (intro conjI)
  let ?e = "\<lparr>files = (\<lambda>p. None), TrimSpace = (\<lambda>s. s)\<rparr>"
  let ?w = "\<lparr>printed = [], cbState = ()\<rparr>"
  let ?sys = "\<lambda>(i::nat) r t (n::string) (k::nat).
      if r = DefaultResolver \<and> t = 5 * Second then None else Some (DNSError False False)"
  let ?own = "\<lambda>(i::nat) r t (n::string) (k::nat).
      if r = CustomResolver [''8.8.8.8''] \<and> t = 3 * Second then None
      else Some (DNSError False False)"
  have d1: "[] = ([]::string) \<and> (''1.1.1.1'' = [] \<or> ''1.1.1.1'' = ''1.1.1.1'')"
    by simp
  have d2: "[] = ([]::string) \<and> (([]::string) = [] \<or> ([]::string) = ''1.1.1.1'')"
    by simp
  note sel = FastDNSLookup_resolver_selection [where e = ?e and w = ?w and callback = None
      and threads = 25 and sched = "[1, 0]" and names = "[''a.com'', ''b.com'']"]
  show "FastDNSLookup ?e ?sys [1, 0] [''a.com'', ''b.com''] ''1.1.1.1'' [] None 25 ?w
     = (\<lparr>printed = [BruteForcingNames 2, Complete 2 2, ClearLine], cbState = ()\<rparr>,
        Returned [''b.com'', ''a.com''])"
    by (subst sel [where net = ?sys and nameserver = "''1.1.1.1''" and nameserverFile = "[]",
              THEN conjunct1, rule_format, OF d1, THEN conjunct2, THEN conjunct1])
      code_simp
  show "FastDNSLookup ?e ?sys [1, 0] [''a.com'', ''b.com''] [] [] None 25 ?w
     = (\<lparr>printed = [BruteForcingNames 2, Complete 2 2, ClearLine], cbState = ()\<rparr>,
        Returned [''b.com'', ''a.com''])"
    by (subst sel [where net = ?sys and nameserver = "[]" and nameserverFile = "[]",
              THEN conjunct1, rule_format, OF d2, THEN conjunct2, THEN conjunct1])
      code_simp
  have c: "chooseResolver ?e ''8.8.8.8'' [] ?w =
      (\<lparr>printed = [UsingCustomNameservers], cbState = ()\<rparr>,
       Returned (CustomResolver [''8.8.8.8''], 3 * Second))"
    using sel [where net = ?own and nameserver = "''8.8.8.8''" and nameserverFile = "[]",
        THEN conjunct2, THEN conjunct2, THEN conjunct1]
    by simp
  have n: "[''a.com'', ''b.com''] \<noteq> []"
    by simp
  show "FastDNSLookup ?e ?own [1, 0] [''a.com'', ''b.com''] ''8.8.8.8'' [] None 25 ?w
     = (\<lparr>printed = [UsingCustomNameservers, BruteForcingNames 2, Complete 2 2, ClearLine],
         cbState = ()\<rparr>,
        Returned [''b.com'', ''a.com''])"
    by (subst sel [where net = ?own and nameserver = "''8.8.8.8''" and nameserverFile = "[]",
              THEN conjunct2, THEN conjunct1, rule_format, OF c, THEN conjunct2, THEN conjunct2,
              rule_format, OF n])
      code_simp
qed

lemma consumeResults_ending:
  "snd (consumeResults cb xs w acc) =
     (if BREAKOUT_DNS_ERROR \<in> set xs then Exited 1
      else Returned (acc @ filter (\<lambda>n. n \<noteq> []) xs))"
proof (cases "BREAKOUT_DNS_ERROR \<in> set xs")
  case False
  then show ?thesis by (simp add: consumeResults_no_fatal)
next
  case True
  then obtain pre post where "xs = pre @ BREAKOUT_DNS_ERROR # post" "BREAKOUT_DNS_ERROR \<notin> set pre"
    by (auto dest: split_list_first)
  then show ?thesis using True by (simp add: consumeResults_fatal)
qed

lemma chooseResolver_ending:
  "snd (chooseResolver e nameserver nameserverFile w1) =
   snd (chooseResolver e nameserver nameserverFile w2)"
  by (auto simp: chooseResolver_def ReadNameservers_def Let_def split: option.splits)

lemma FastDNSLookup_ending:
  "snd (FastDNSLookup e net sched names nameserver nameserverFile cb threads w) =
     (if names = [] then Returned []
      else
        (case snd (chooseResolver e nameserver nameserverFile w) of
           Exited status \<Rightarrow> Exited status
         | Panicked \<Rightarrow> Panicked
         | Returned (resolver, lookupTimeout) \<Rightarrow>
             let filtered = keepValid names [];
                 c = dnsConcurrency threads (int (length filtered))
             in if filtered = [] then Returned []
                else if wrap64 (c * 2) < 0 then Panicked
                else
                  let arr = arrivals (spawnWorkers 0 c 0) sched
                              (lookupResults net resolver lookupTimeout filtered)
                  in if BREAKOUT_DNS_ERROR \<in> set arr then Exited 1
                     else Returned (filter (\<lambda>n. n \<noteq> []) arr)))"
proof -
  have k: "snd (case consumeResults cb xs w2 [] of
              (w3, Returned validNames) \<Rightarrow> (f w3, Returned validNames)
            | (w3, stopped) \<Rightarrow> (w3, stopped)) = snd (consumeResults cb xs w2 [])"
    for xs w2 and f :: "'a world \<Rightarrow> 'a world"
    by (cases "consumeResults cb xs w2 []") (auto split: ending.splits)
  show ?thesis
    by (cases "chooseResolver e nameserver nameserverFile w")
       (auto simp: FastDNSLookup_def Let_def k consumeResults_ending split: ending.splits)
qed

lemma arrivals_set:
  assumes "validSchedule sched (length results)"
  shows "set (arrivals nw sched results) = (if nw = 0 then {} else set results)"
proof -
  have "set sched = {0..<length results}"
    using assms by (metis validSchedule_def set_mset_mset set_upt)
  then have "(\<lambda>i. results ! i) ` {i \<in> set sched. i < length results} = set results"
    by (auto simp: in_set_conv_nth)
  then show ?thesis by (simp add: arrivals_def)
qed

lemma length_lookupResults: "length (lookupResults net r t filtered) = length filtered"
  by (simp add: lookupResults_def)

text \<open>
  C8. Against a deterministic resolver, whose answer depends on the name alone (and on
  the resolver and timeout asked with), two runs of \<open>FastDNSLookup\<close> on the same list end
  alike whatever the order in which the lookups complete and whatever the state the runs
  start in: both return, and the returned lists hold the same names, or both end the
  process the same way.
\<close>

theorem FastDNSLookup_idempotent:
  assumes "validSchedule sched1 (length (keepValid names []))"
    and "validSchedule sched2 (length (keepValid names []))"
  shows "sameResolvedSet
           (snd (FastDNSLookup e (\<lambda>i r t n k. answer r t n) sched1 names
                   nameserver nameserverFile callback threads w1))
           (snd (FastDNSLookup e (\<lambda>i r t n k. answer r t n) sched2 names
                   nameserver nameserverFile callback threads w2))"
proof -
  let ?net = "\<lambda>(i::nat) r t n (k::nat). answer r t n"
  have s: "set (arrivals nw sched1 (lookupResults ?net r t (keepValid names []))) =
           set (arrivals nw sched2 (lookupResults ?net r t (keepValid names [])))"
    for nw r t
    using assms by (simp add: arrivals_set length_lookupResults)
  have f: "set (filter P (arrivals nw sched1 (lookupResults ?net r t (keepValid names [])))) =
           set (filter P (arrivals nw sched2 (lookupResults ?net r t (keepValid names []))))"
    for nw r t P
    using s [of nw r t] by simp
  show ?thesis
    unfolding FastDNSLookup_ending chooseResolver_ending [of e nameserver nameserverFile w1 w2]
    by (auto simp: Let_def s f split: ending.splits)
qed


theorem FastDNSLookup_idempotent_witness:
  "sameResolvedSet
     (snd (FastDNSLookup \<lparr>files = (\<lambda>p. None), TrimSpace = (\<lambda>s. s)\<rparr>
        (\<lambda>i r t n k. if n = ''b.com'' then Some (DNSError True False) else None) [0, 1, 2]
        [''a.com'', ''..'', ''b.com'', ''c.com''] [] [] None 25 \<lparr>printed = [], cbState = ()\<rparr>))
     (snd (FastDNSLookup \<lparr>files = (\<lambda>p. None), TrimSpace = (\<lambda>s. s)\<rparr>
        (\<lambda>i r t n k. if n = ''b.com'' then Some (DNSError True False) else None) [2, 0, 1]
        [''a.com'', ''..'', ''b.com'', ''c.com''] [] [] None 25 \<lparr>printed = [], cbState = ()\<rparr>)) \<and>
   snd (FastDNSLookup \<lparr>files = (\<lambda>p. None), TrimSpace = (\<lambda>s. s)\<rparr>
        (\<lambda>i r t n k. if n = ''b.com'' then Some (DNSError True False) else None) [2, 0, 1]
        [''a.com'', ''..'', ''b.com'', ''c.com''] [] [] None 25 \<lparr>printed = [], cbState = ()\<rparr>)
     = Returned [''c.com'', ''a.com'']"
proof -
  have k: "keepValid [''a.com'', ''..'', ''b.com'', ''c.com''] [] = [''a.com'', ''b.com'', ''c.com'']"
    by code_simp
  have h1: "validSchedule [0, 1, 2] (length (keepValid [''a.com'', ''..'', ''b.com'', ''c.com''] []))"
    unfolding k by (simp add: validSchedule_def upt_rec)
  have h2: "validSchedule [2, 0, 1] (length (keepValid [''a.com'', ''..'', ''b.com'', ''c.com''] []))"
    unfolding k by (simp add: validSchedule_def upt_rec)
  have r: "snd (FastDNSLookup \<lparr>files = (\<lambda>p. None), TrimSpace = (\<lambda>s. s)\<rparr>
        (\<lambda>i r t n k. if n = ''b.com'' then Some (DNSError True False) else None) [2, 0, 1]
        [''a.com'', ''..'', ''b.com'', ''c.com''] [] [] None 25 \<lparr>printed = [], cbState = ()\<rparr>)
     = Returned [''c.com'', ''a.com'']"
    by code_simp
  show ?thesis
    using FastDNSLookup_idempotent [OF h1 h2,
      where answer = "\<lambda>r t n. if n = ''b.com'' then Some (DNSError True False) else None"
        and e = "\<lparr>files = (\<lambda>p. None), TrimSpace = (\<lambda>s. s)\<rparr>"
        and nameserver = "[]" and nameserverFile = "[]" and callback = None and threads = 25
        and ?w1.0 = "\<lparr>printed = [], cbState = ()\<rparr>" and ?w2.0 = "\<lparr>printed = [], cbState = ()\<rparr>"]
      r by simp
qed

section \<open>Properties of the HTTP batch\<close>

lemma stepE [consumes 1, case_names feeder_end feeder_next feeder_send feeder_close receive stop
    drain admit ratelimit get failed answered send close consume return]:
  assumes "step callback a s = Some s'"
  obtains
    "a = FeederLoads" "feeder s = FeederLoop" "feed s = [] \<or> aborted s \<noteq> 0"
      "s' = s\<lparr>feeder := FeederClose\<rparr>"
  | u rest where "a = FeederLoads" "feeder s = FeederLoop" "feed s = u # rest" "aborted s = 0"
      "s' = s\<lparr>feeder := FeederSend u, feed := rest\<rparr>"
  | u where "a = FeederSends" "feeder s = FeederSend u" "length (jobs s) < jobsCap s"
      "s' = s\<lparr>jobs := jobs s @ [u], feeder := FeederLoop\<rparr>"
  | "a = FeederCloses" "feeder s = FeederClose" "s' = s\<lparr>jobsClosed := True, feeder := FeederDone\<rparr>"
  | i u rest where "a = Receive i" "workerAt s i = Some Receiving" "jobs s = u # rest"
      "s' = setWorker i (Loading u) (s\<lparr>jobs := rest\<rparr>)"
  | i where "a = Receive i" "workerAt s i = Some Receiving" "jobs s = []" "jobsClosed s"
      "s' = setWorker i Stopped s"
  | i u where "a = LoadAborted i" "workerAt s i = Some (Loading u)" "aborted s \<noteq> 0"
      "s' = setWorker i Receiving (s\<lparr>doneCount := wrap64 (doneCount s + 1)\<rparr>)"
  | i u where "a = LoadAborted i" "workerAt s i = Some (Loading u)" "aborted s = 0"
      "s' = setWorker i (Admitting u) s"
  | i u g where "a = RateLimit i" "workerAt s i = Some (Admitting u)"
      "rateLimitCheck (rl s) = Some g" "s' = setWorker i (Requesting u) (s\<lparr>rl := g\<rparr>)"
  | i u where "a = Get i" "workerAt s i = Some (Requesting u)"
      "s' = setWorker i (Awaiting u) (s\<lparr>requests := requests s @ [(proto s @ u, aborted s)]\<rparr>)"
  | i u err w' where "a = Answer i (Inl err)" "workerAt s i = Some (Awaiting u)"
      "s' = setWorker i Receiving (s\<lparr>caller := w', doneCount := wrap64 (doneCount s + 1)\<rparr>)"
  | i u resp r where "a = Answer i (Inr resp)" "workerAt s i = Some (Awaiting u)"
      "s' = setWorker i (Sending r) s"
  | i r where "a = SendResult i" "workerAt s i = Some (Sending r)"
      "length (resultsCh s) < resultsCap s"
      "s' = setWorker i Receiving
              (s\<lparr>resultsCh := resultsCh s @ [r], doneCount := wrap64 (doneCount s + 1)\<rparr>)"
  | "a = CloseResults" "s' = s\<lparr>resultsClosed := True\<rparr>"
  | r rest stop c where "a = Consume" "resultsCh s = r # rest"
      "callback r (cbState (caller s)) = (stop, c)"
      "s' = s\<lparr>resultsCh := rest, caller := (caller s)\<lparr>cbState := c\<rparr>,
               aborted := (if stop then 1 else aborted s)\<rparr>"
  | w' where "a = Return" "s' = s\<lparr>returned := True, caller := w'\<rparr>"
proof (cases a)
  case FeederLoads
  with assms that(1,2) show ?thesis
    by (auto split: feeder.splits list.splits if_splits)
next
  case FeederSends
  with assms that(3) show ?thesis
    by (auto split: feeder.splits if_splits)
next
  case FeederCloses
  with assms that(4) show ?thesis
    by (auto split: feeder.splits)
next
  case (Receive i)
  with assms that(5,6) show ?thesis
    by (auto split: option.splits worker.splits list.splits if_splits)
next
  case (LoadAborted i)
  with assms that(7,8) show ?thesis
    by (auto split: option.splits worker.splits if_splits)
next
  case (RateLimit i)
  with assms that(9) show ?thesis
    by (auto split: option.splits worker.splits)
next
  case (Get i)
  with assms that(10) show ?thesis
    by (auto split: option.splits worker.splits)
next
  case (Answer i r)
  with assms that(11,12) show ?thesis
    by (cases r) (auto simp: Let_def split: option.splits worker.splits)
next
  case (SendResult i)
  with assms that(13) show ?thesis
    by (auto split: option.splits worker.splits if_splits)
next
  case CloseResults
  with assms that(14) show ?thesis
    by (auto split: if_splits)
next
  case Consume
  with assms that(15) show ?thesis
    by (auto simp: Let_def split: if_splits list.splits prod.splits)
next
  case Return
  with assms that(16) show ?thesis
    by (auto simp: Let_def split: if_splits)
qed

lemma filter_update_count:
  "i < length xs \<Longrightarrow>
   length (filter P (xs[i := y])) + (if P (xs ! i) then 1 else 0) =
   length (filter P xs) + (if P y then 1 else 0)"
proof (induction xs arbitrary: i)
  case Nil
  then show ?case by simp
next
  case (Cons x xs)
  show ?case
  proof (cases i)
    case 0
    then show ?thesis by simp
  next
    case (Suc j)
    with Cons.prems have "j < length xs" by simp
    from Cons.IH [OF this] Suc show ?thesis by simp
  qed
qed

lemma workerAt_Some: "workerAt s i = Some wk \<longleftrightarrow> i < length (workers s) \<and> workers s ! i = wk"
  by (auto simp: workerAt_def)

lemma worker_move:
  assumes "workerAt s i = Some old" and "workers t = workers s"
  shows "admitted (setWorker i wk t) + (if pastCheck old then 1 else 0) =
         admitted s + (if pastCheck wk then 1 else 0)"
  using assms filter_update_count [of i "workers s" pastCheck wk]
  by (simp add: admitted_def setWorker_def workerAt_Some)

lemma admitted_le: "admitted s \<le> length (workers s)"
  by (simp add: admitted_def)

lemma setWorker_simps:
  "requests (setWorker i wk s) = requests s" "aborted (setWorker i wk s) = aborted s"
  "length (workers (setWorker i wk s)) = length (workers s)"
  "feed (setWorker i wk s) = feed s" "jobs (setWorker i wk s) = jobs s"
  "feeder (setWorker i wk s) = feeder s" "proto (setWorker i wk s) = proto s"
  "rl (setWorker i wk s) = rl s" "nTotal (setWorker i wk s) = nTotal s"
  "workers (setWorker i wk s) = (workers s)[i := wk]"
  by (simp_all add: setWorker_def)

text \<open>What one step does to the requests and to the workers past their check.\<close>

lemma step_requests:
  assumes "step callback a s = Some s'"
  shows "length (workers s') = length (workers s) \<and>
         (\<exists>new. requests s' = requests s @ new \<and>
            (\<forall>(u, flag) \<in> set new. flag = aborted s) \<and>
            (aborted s \<noteq> 0 \<longrightarrow> aborted s' \<noteq> 0 \<and> length new + admitted s' = admitted s))"
  using assms
proof (cases rule: stepE)
  case feeder_end
  then show ?thesis by (simp add: admitted_def)
next
  case (feeder_next u rest)
  then show ?thesis by (simp add: admitted_def)
next
  case (feeder_send u)
  then show ?thesis by (simp add: admitted_def)
next
  case feeder_close
  then show ?thesis by (simp add: admitted_def)
next
  case (receive i u rest)
  from worker_move [OF receive(2), of "s\<lparr>jobs := rest\<rparr>" "Loading u"] receive
  show ?thesis by (simp add: setWorker_simps)
next
  case (stop i)
  from worker_move [OF stop(2), of s Stopped] stop
  show ?thesis by (simp add: setWorker_simps)
next
  case (drain i u)
  from worker_move [OF drain(2), of "s\<lparr>doneCount := wrap64 (doneCount s + 1)\<rparr>" Receiving] drain
  show ?thesis by (simp add: setWorker_simps)
next
  case (admit i u)
  then show ?thesis by (simp add: setWorker_simps)
next
  case (ratelimit i u g)
  from worker_move [OF ratelimit(2), of "s\<lparr>rl := g\<rparr>" "Requesting u"] ratelimit
  show ?thesis by (simp add: setWorker_simps)
next
  case (get i u)
  from worker_move [OF get(2), of "s\<lparr>requests := requests s @ [(proto s @ u, aborted s)]\<rparr>" "Awaiting u"] get
  show ?thesis by (simp add: setWorker_simps)
next
  case (failed i u err w')
  from worker_move [OF failed(2), of "s\<lparr>caller := w', doneCount := wrap64 (doneCount s + 1)\<rparr>" Receiving] failed
  show ?thesis by (simp add: setWorker_simps)
next
  case (answered i u resp r)
  from worker_move [OF answered(2), of s "Sending r"] answered
  show ?thesis by (simp add: setWorker_simps)
next
  case (send i r)
  from worker_move [OF send(2), of "s\<lparr>resultsCh := resultsCh s @ [r], doneCount := wrap64 (doneCount s + 1)\<rparr>" Receiving] send
  show ?thesis by (simp add: setWorker_simps)
next
  case close
  then show ?thesis by (simp add: admitted_def)
next
  case (consume r rest stop c)
  then show ?thesis by (simp add: admitted_def)
next
  case (return w')
  then show ?thesis by (simp add: admitted_def)
qed

lemma run_abort:
  assumes "run callback sched s = Some s'" and "aborted s \<noteq> 0"
  shows "aborted s' \<noteq> 0 \<and>
         (\<exists>new. requests s' = requests s @ new \<and> length new + admitted s' = admitted s)"
  using assms
proof (induction sched arbitrary: s)
  case Nil
  then show ?case by simp
next
  case (Cons a as)
  from Cons.prems obtain s1 where s1: "step callback a s = Some s1" "run callback as s1 = Some s'"
    by (auto split: option.splits)
  from step_requests [OF s1(1)] Cons.prems(2)
  obtain new1 where n1: "requests s1 = requests s @ new1" "aborted s1 \<noteq> 0"
      "length new1 + admitted s1 = admitted s"
    by auto
  from Cons.IH [OF s1(2) n1(2)]
  obtain new2 where n2: "aborted s' \<noteq> 0" "requests s' = requests s1 @ new2"
      "length new2 + admitted s' = admitted s1"
    by auto
  have "requests s' = requests s @ (new1 @ new2)"
    using n1 n2 by simp
  moreover have "length (new1 @ new2) + admitted s' = admitted s"
    using n1 n2 by simp
  ultimately show ?case using n2(1) by blast
qed

lemma step_lateInv:
  assumes "step callback a s = Some s'" and "lateInv s"
  shows "lateInv s'"
proof -
  from step_requests [OF assms(1)]
  obtain new where n: "length (workers s') = length (workers s)"
      "requests s' = requests s @ new" "\<forall>(u, flag) \<in> set new. flag = aborted s"
      "aborted s \<noteq> 0 \<longrightarrow> aborted s' \<noteq> 0 \<and> length new + admitted s' = admitted s"
    by auto
  show ?thesis
  proof (cases "aborted s = 0")
    case True
    then have "filter (\<lambda>(u, flag). flag \<noteq> 0) new = []"
      using n(3) by (auto simp: filter_empty_conv)
    then have "lateRequests s' = []"
      using assms(2) True n(2) by (simp add: lateInv_def lateRequests_def)
    then show ?thesis
      using admitted_le [of s'] by (simp add: lateInv_def)
  next
    case False
    then have "filter (\<lambda>(u, flag). flag \<noteq> 0) new = new"
      using n(3) by (auto simp: filter_id_conv)
    then have "length (lateRequests s') = length (lateRequests s) + length new"
      using n(2) by (simp add: lateRequests_def)
    then show ?thesis
      using assms(2) False n(1,4) by (simp add: lateInv_def)
  qed
qed

lemma run_lateInv: "run callback sched s = Some s' \<Longrightarrow> lateInv s \<Longrightarrow> lateInv s'"
  by (induction sched arbitrary: s) (auto split: option.splits dest: step_lateInv)

lemma run_workers: "run callback sched s = Some s' \<Longrightarrow> length (workers s') = length (workers s)"
  by (induction sched arbitrary: s) (auto split: option.splits dest: step_requests)

lemma launch_state:
  assumes "GetURLBatch_launch urlList useSSL threads followRedirects g w = Launched s"
  shows "feed s = keepValid urlList []" "nTotal s = length (keepValid urlList [])"
    "requests s = []" "aborted s = 0" "jobs s = []" "feeder s = FeederLoop"
    "workers s = replicate (spawnWorkers 0 threads 0) Receiving" "rl s = g" "caller s = w"
    "proto s = (if useSSL then ''https://'' else ''http://'')"
  using assms
  by (auto simp: GetURLBatch_launch_def Let_def split: if_splits)

text \<open>
  C3, as the code has it. Once \<open>aborted\<close> is set it stays set, and a worker that loads
  it as set drains its URL: it counts the URL as done and sends no request. A worker
  loads the flag before it sends, not while it sends: the requests still sent after the
  flag is set are those of workers that had loaded it as 0 and had not sent yet, one
  each, so every further request takes one worker out of \<open>admitted\<close>, and when no such
  worker is left no request is sent any more. Over a whole batch the requests sent with
  the flag set are at most as many as the workers.
\<close>

theorem abort_stops_dispatch:
  "(run callback sched s = Some s' \<and> aborted s \<noteq> 0 \<longrightarrow>
      aborted s' \<noteq> 0 \<and>
      (\<exists>new. requests s' = requests s @ new \<and> length new + admitted s' = admitted s)) \<and>
   (workerAt s i = Some (Loading u) \<and> aborted s \<noteq> 0 \<longrightarrow>
      step callback (LoadAborted i) s =
        Some (setWorker i Receiving (s\<lparr>doneCount := wrap64 (doneCount s + 1)\<rparr>))) \<and>
   (GetURLBatch sched urlList useSSL callback threads followRedirects g w = Reached s' \<longrightarrow>
      length (lateRequests s') \<le> spawnWorkers 0 threads 0)"
proof (intro conjI impI)
  assume "run callback sched s = Some s' \<and> aborted s \<noteq> 0"
  then show "aborted s' \<noteq> 0"
    "\<exists>new. requests s' = requests s @ new \<and> length new + admitted s' = admitted s"
    using run_abort [of callback sched s s'] by blast+
next
  assume "workerAt s i = Some (Loading u) \<and> aborted s \<noteq> 0"
  then show "step callback (LoadAborted i) s =
        Some (setWorker i Receiving (s\<lparr>doneCount := wrap64 (doneCount s + 1)\<rparr>))"
    by simp
next
  assume r: "GetURLBatch sched urlList useSSL callback threads followRedirects g w = Reached s'"
  then obtain s0 where s0: "GetURLBatch_launch urlList useSSL threads followRedirects g w = Launched s0"
      "run callback sched s0 = Some s'"
    by (auto simp: GetURLBatch_def split: launch.splits option.splits)
  have "lateInv s0"
    using launch_state [OF s0(1)] by (simp add: lateInv_def lateRequests_def)
  from run_lateInv [OF s0(2) this] have "lateInv s'" .
  then have "length (lateRequests s') \<le> length (workers s')"
    by (cases "aborted s' = 0") (auto simp: lateInv_def)
  also have "\<dots> = length (workers s0)"
    by (rule run_workers [OF s0(2)])
  also have "\<dots> = spawnWorkers 0 threads 0"
    using launch_state [OF s0(1)] by simp
  finally show "length (lateRequests s') \<le> spawnWorkers 0 threads 0" .
qed

theorem abort_stops_dispatch_witness:
  "(case GetURLBatch
      [FeederLoads, FeederSends, FeederLoads, FeederSends, Receive 0, Receive 1,
       LoadAborted 0, LoadAborted 1, RateLimit 0, Get 0,
       Answer 0 (Inr \<lparr>finalURL = ''http://a.com'', statusCode = 200,
                        statusLine = ''200 OK'', bodyRead = []\<rparr>),
       SendResult 0, Consume, RateLimit 1, Get 1]
      [''a.com'', ''b.com''] False (\<lambda>r c. (True, c)) 2 True (startGlobals 0 0)
      \<lparr>printed = [], cbState = ()\<rparr> of
      Reached s' \<Rightarrow> length (lateRequests s') \<le> 2
    | _ \<Rightarrow> False) \<and>
   (case GetURLBatch
      [FeederLoads, FeederSends, FeederLoads, FeederSends, Receive 0, Receive 1,
       LoadAborted 0, RateLimit 0, Get 0,
       Answer 0 (Inr \<lparr>finalURL = ''http://a.com'', statusCode = 200,
                        statusLine = ''200 OK'', bodyRead = []\<rparr>),
       SendResult 0, Consume]
      [''a.com'', ''b.com''] False (\<lambda>r c. (True, c)) 2 True (startGlobals 0 0)
      \<lparr>printed = [], cbState = ()\<rparr> of
      Reached s \<Rightarrow>
        aborted s \<noteq> 0 \<and> workerAt s 1 = Some (Loading ''b.com'') \<and>
        (case run (\<lambda>r c. (True, c))
                [LoadAborted 1, FeederLoads, FeederCloses, Receive 0, Receive 1,
                 CloseResults, Return] s of
           Some s' \<Rightarrow> requests s' = requests s \<and> aborted s' \<noteq> 0
         | None \<Rightarrow> False)
    | _ \<Rightarrow> False)"
proof (intro conjI)
  let ?cb = "\<lambda>(r::HttpResult) (c::unit). (True, c)"
  let ?resp = "\<lparr>finalURL = ''http://a.com'', statusCode = 200,
                        statusLine = ''200 OK'', bodyRead = []\<rparr>"
  let ?X = "GetURLBatch
      [FeederLoads, FeederSends, FeederLoads, FeederSends, Receive 0, Receive 1,
       LoadAborted 0, LoadAborted 1, RateLimit 0, Get 0, Answer 0 (Inr ?resp),
       SendResult 0, Consume, RateLimit 1, Get 1]
      [''a.com'', ''b.com''] False ?cb 2 True (startGlobals 0 0)
      \<lparr>printed = [], cbState = ()\<rparr>"
  have "case ?X of Reached s' \<Rightarrow> True | _ \<Rightarrow> False"
    by code_simp
  then obtain s' where r: "?X = Reached s'"
    by (auto split: progress.splits)
  have w: "spawnWorkers 0 2 0 = 2"
    by (simp add: spawnWorkers_eq)
  from abort_stops_dispatch [THEN conjunct2, THEN conjunct2, rule_format, OF r]
  have "length (lateRequests s') \<le> 2"
    unfolding w .
  then show "case ?X of Reached s' \<Rightarrow> length (lateRequests s') \<le> 2 | _ \<Rightarrow> False"
    unfolding r progress.case .
next
  let ?cb = "\<lambda>(r::HttpResult) (c::unit). (True, c)"
  let ?resp = "\<lparr>finalURL = ''http://a.com'', statusCode = 200,
                        statusLine = ''200 OK'', bodyRead = []\<rparr>"
  let ?Y = "GetURLBatch
      [FeederLoads, FeederSends, FeederLoads, FeederSends, Receive 0, Receive 1,
       LoadAborted 0, RateLimit 0, Get 0, Answer 0 (Inr ?resp), SendResult 0, Consume]
      [''a.com'', ''b.com''] False ?cb 2 True (startGlobals 0 0)
      \<lparr>printed = [], cbState = ()\<rparr>"
  let ?post = "[LoadAborted 1, FeederLoads, FeederCloses, Receive 0, Receive 1,
                 CloseResults, Return]"
  have ev: "case ?Y of
          Reached s \<Rightarrow>
            (aborted s \<noteq> 0 \<and> workerAt s 1 = Some (Loading ''b.com'') \<and> admitted s = 0) \<and>
            (case run ?cb ?post s of Some s' \<Rightarrow> True | None \<Rightarrow> False)
        | _ \<Rightarrow> False"
    by code_simp
  obtain s where y: "?Y = Reached s"
    and p: "(aborted s \<noteq> 0 \<and> workerAt s 1 = Some (Loading ''b.com'') \<and> admitted s = 0) \<and>
            (case run ?cb ?post s of Some s' \<Rightarrow> True | None \<Rightarrow> False)"
  proof (cases ?Y)
    case (Reached s)
    from ev have "(aborted s \<noteq> 0 \<and> workerAt s 1 = Some (Loading ''b.com'') \<and> admitted s = 0) \<and>
            (case run ?cb ?post s of Some s' \<Rightarrow> True | None \<Rightarrow> False)"
      unfolding Reached progress.case .
    with Reached that show thesis by blast
  next
    case ReturnedAtOnce
    with ev show thesis by (simp only: progress.case)
  next
    case Panics
    with ev show thesis by (simp only: progress.case)
  next
    case NoRun
    with ev show thesis by (simp only: progress.case)
  qed
  obtain s' where q: "run ?cb ?post s = Some s'"
  proof (cases "run ?cb ?post s")
    case None
    with p have False by (simp only: option.case simp_thms)
    then show thesis ..
  next
    case (Some s')
    with that show thesis by blast
  qed
  from p have r: "?Y = Reached s" "aborted s \<noteq> 0"
      "workerAt s 1 = Some (Loading ''b.com'')" "admitted s = 0" "run ?cb ?post s = Some s'"
    using y q by blast+
  from abort_stops_dispatch [THEN conjunct1, rule_format, of ?cb ?post s s'] r(2,4,5)
  have "requests s' = requests s \<and> aborted s' \<noteq> 0"
    by auto
  with r(2,3) have final: "aborted s \<noteq> 0 \<and> workerAt s 1 = Some (Loading ''b.com'') \<and>
      (requests s' = requests s \<and> aborted s' \<noteq> 0)"
    by blast
  show "case ?Y of
      Reached s \<Rightarrow>
        aborted s \<noteq> 0 \<and> workerAt s 1 = Some (Loading ''b.com'') \<and>
        (case run ?cb ?post s of
           Some s' \<Rightarrow> requests s' = requests s \<and> aborted s' \<noteq> 0
         | None \<Rightarrow> False)
    | _ \<Rightarrow> False"
    unfolding r(1) progress.case r(5) option.case by (rule final)
qed


theorem abort_late_request_counterexample:
  "(case GetURLBatch
      [FeederLoads, FeederSends, FeederLoads, FeederSends, Receive 0, Receive 1,
       LoadAborted 0, LoadAborted 1, RateLimit 0, Get 0,
       Answer 0 (Inr \<lparr>finalURL = ''http://a.com'', statusCode = 200,
                        statusLine = ''200 OK'', bodyRead = []\<rparr>),
       SendResult 0, Consume, RateLimit 1, Get 1]
      [''a.com'', ''b.com''] False (\<lambda>r c. (True, c)) 2 True (startGlobals 0 0)
      \<lparr>printed = [], cbState = ()\<rparr> of
      Reached s \<Rightarrow>
        aborted s = 1 \<and>
        requests s = [(''http://a.com'', 0), (''http://b.com'', 1)] \<and>
        length (lateRequests s) = 1
    | _ \<Rightarrow> False)"
  by code_simp


section \<open>Invalid entries\<close>

lemma set_update_mem: "x \<in> set (xs[i := y]) \<Longrightarrow> x = y \<or> x \<in> set xs"
  by (metis insert_iff set_update_subset_insert subsetD)

lemma workerAt_mem: "workerAt s i = Some wk \<Longrightarrow> wk \<in> set (workers s)"
  by (auto simp: workerAt_Some)

lemma onlyFrom_setWorker:
  assumes "onlyFrom V t" and "\<And>u. workerURL wk = Some u \<Longrightarrow> u \<in> V"
  shows "onlyFrom V (setWorker i wk t)"
  using assms by (auto simp: onlyFrom_def setWorker_def dest!: set_update_mem)

lemma onlyFrom_worker:
  "onlyFrom V s \<Longrightarrow> workerAt s i = Some wk \<Longrightarrow> workerURL wk = Some u \<Longrightarrow> u \<in> V"
  by (auto simp: onlyFrom_def dest: workerAt_mem)

lemma step_onlyFrom:
  assumes "step callback a s = Some s'" and "onlyFrom V s"
  shows "onlyFrom V s'"
  using assms(1)
proof (cases rule: stepE)
  case feeder_end
  with assms(2) show ?thesis by (simp add: onlyFrom_def)
next
  case (feeder_next u rest)
  with assms(2) show ?thesis by (simp add: onlyFrom_def)
next
  case (feeder_send u)
  with assms(2) show ?thesis by (simp add: onlyFrom_def)
next
  case feeder_close
  with assms(2) show ?thesis by (simp add: onlyFrom_def)
next
  case (receive i u rest)
  have "onlyFrom V (s\<lparr>jobs := rest\<rparr>)" "u \<in> V"
    using assms(2) receive(3) by (simp_all add: onlyFrom_def)
  then show ?thesis unfolding receive(4) by (intro onlyFrom_setWorker) simp_all
next
  case (stop i)
  with assms(2) show ?thesis unfolding stop(5) by (intro onlyFrom_setWorker) simp_all
next
  case (drain i u)
  have "onlyFrom V (s\<lparr>doneCount := wrap64 (doneCount s + 1)\<rparr>)"
    using assms(2) by (simp add: onlyFrom_def)
  then show ?thesis unfolding drain(4) by (intro onlyFrom_setWorker) simp_all
next
  case (admit i u)
  have "u \<in> V" using onlyFrom_worker [OF assms(2) admit(2)] by simp
  with assms(2) show ?thesis unfolding admit(4) by (intro onlyFrom_setWorker) simp_all
next
  case (ratelimit i u g)
  have "u \<in> V" using onlyFrom_worker [OF assms(2) ratelimit(2)] by simp
  moreover have "onlyFrom V (s\<lparr>rl := g\<rparr>)"
    using assms(2) by (simp add: onlyFrom_def)
  ultimately show ?thesis unfolding ratelimit(4) by (intro onlyFrom_setWorker) simp_all
next
  case (get i u)
  have u: "u \<in> V" using onlyFrom_worker [OF assms(2) get(2)] by simp
  then have "onlyFrom V (s\<lparr>requests := requests s @ [(proto s @ u, aborted s)]\<rparr>)"
    using assms(2) by (auto simp: onlyFrom_def)
  with u show ?thesis unfolding get(3) by (intro onlyFrom_setWorker) simp_all
next
  case (failed i u err w')
  have "onlyFrom V (s\<lparr>caller := w', doneCount := wrap64 (doneCount s + 1)\<rparr>)"
    using assms(2) by (simp add: onlyFrom_def)
  then show ?thesis unfolding failed(3) by (intro onlyFrom_setWorker) simp_all
next
  case (answered i u resp r)
  with assms(2) show ?thesis unfolding answered(3) by (intro onlyFrom_setWorker) simp_all
next
  case (send i r)
  have "onlyFrom V (s\<lparr>resultsCh := resultsCh s @ [r], doneCount := wrap64 (doneCount s + 1)\<rparr>)"
    using assms(2) by (simp add: onlyFrom_def)
  then show ?thesis unfolding send(4) by (intro onlyFrom_setWorker) simp_all
next
  case close
  with assms(2) show ?thesis by (simp add: onlyFrom_def)
next
  case (consume r rest stop c)
  with assms(2) show ?thesis by (simp add: onlyFrom_def)
next
  case (return w')
  with assms(2) show ?thesis by (simp add: onlyFrom_def)
qed

lemma step_fixed:
  assumes "step callback a s = Some s'"
  shows "nTotal s' = nTotal s \<and> proto s' = proto s"
  using assms by (cases rule: stepE) (simp_all add: setWorker_def)

lemma run_onlyFrom: "run callback sched s = Some s' \<Longrightarrow> onlyFrom V s \<Longrightarrow> onlyFrom V s'"
  by (induction sched arbitrary: s) (auto split: option.splits dest: step_onlyFrom)

lemma run_fixed: "run callback sched s = Some s' \<Longrightarrow> nTotal s' = nTotal s \<and> proto s' = proto s"
  by (induction sched arbitrary: s) (auto split: option.splits dest: step_fixed)

lemma lookupResults_valid_only:
  assumes "\<forall>i r t n k. IsValidDomain n \<longrightarrow> net' i r t n k = net i r t n k"
  shows "lookupResults net' r t (keepValid names []) = lookupResults net r t (keepValid names [])"
proof -
  have "IsValidDomain (keepValid names [] ! i)" if "i < length (keepValid names [])" for i
    using nth_mem [OF that] by (simp add: keepValid_eq)
  then show ?thesis
    unfolding lookupResults_def using assms
    by (intro map_cong refl dnsLookup_cong) simp_all
qed

text \<open>
  C7. Both batch engines keep exactly the entries that pass \<open>IsValidDomain\<close>, in order,
  and an entry that fails is dropped with no other effect. In an HTTP batch the
  \<open>total\<close> of the progress lines is the number of valid entries, and every URL queued,
  held by a worker or requested is a valid entry of the list. In a DNS batch no invalid
  name is ever looked up (what the network would answer for one does not matter), and
  the \<open>total\<close> of the final progress line is the number of valid names.
\<close>

theorem invalid_entries_dropped:
  "keepValid entries [] = filter IsValidDomain entries \<and>
   (\<not> IsValidDomain x \<longrightarrow> keepValid (x # entries) [] = keepValid entries []) \<and>
   (GetURLBatch sched urlList useSSL callback threads followRedirects g w = Reached s \<longrightarrow>
      nTotal s = length (filter IsValidDomain urlList) \<and>
      (\<forall>(r, flag) \<in> set (requests s).
         \<exists>u \<in> set urlList. IsValidDomain u \<and> r = (if useSSL then ''https://'' else ''http://'') @ u) \<and>
      (\<forall>u \<in> set (jobs s). IsValidDomain u) \<and>
      (\<forall>wk \<in> set (workers s). \<forall>u. workerURL wk = Some u \<longrightarrow> IsValidDomain u)) \<and>
   ((\<forall>i r t n k. IsValidDomain n \<longrightarrow> net' i r t n k = net i r t n k) \<longrightarrow>
      FastDNSLookup e net' dsched names nameserver nameserverFile dcallback threads dw =
      FastDNSLookup e net dsched names nameserver nameserverFile dcallback threads dw) \<and>
   (filter IsValidDomain names \<noteq> [] \<and>
    FastDNSLookup e net dsched names nameserver nameserverFile dcallback threads dw = (dw', Returned found) \<longrightarrow>
      (\<exists>p. printed dw' = p @ [Complete (length (filter IsValidDomain names))
                                     (length (filter IsValidDomain names)), ClearLine]))"
proof (intro conjI impI)
  show "keepValid entries [] = filter IsValidDomain entries"
    by (simp add: keepValid_eq)
  show "keepValid (x # entries) [] = keepValid entries []" if "\<not> IsValidDomain x"
    using that by simp
next
  assume r: "GetURLBatch sched urlList useSSL callback threads followRedirects g w = Reached s"
  then obtain s0 where s0: "GetURLBatch_launch urlList useSSL threads followRedirects g w = Launched s0"
      "run callback sched s0 = Some s"
    by (auto simp: GetURLBatch_def split: launch.splits option.splits)
  let ?V = "set (filter IsValidDomain urlList)"
  note st = launch_state [OF s0(1)]
  have "onlyFrom ?V s0"
    using st by (simp add: onlyFrom_def keepValid_eq)
  from run_onlyFrom [OF s0(2) this] have o: "onlyFrom ?V s" .
  from run_fixed [OF s0(2)] st have f: "nTotal s = length (filter IsValidDomain urlList)"
      "proto s = (if useSSL then ''https://'' else ''http://'')"
    by (simp_all add: keepValid_eq)
  show "nTotal s = length (filter IsValidDomain urlList)" by (rule f)
  show "\<forall>(r, flag) \<in> set (requests s).
         \<exists>u \<in> set urlList. IsValidDomain u \<and> r = (if useSSL then ''https://'' else ''http://'') @ u"
    using o f(2) by (fastforce simp: onlyFrom_def)
  show "\<forall>u \<in> set (jobs s). IsValidDomain u"
    using o by (auto simp: onlyFrom_def)
  show "\<forall>wk \<in> set (workers s). \<forall>u. workerURL wk = Some u \<longrightarrow> IsValidDomain u"
    using o by (auto simp: onlyFrom_def)
next
  assume a: "\<forall>i r t n k. IsValidDomain n \<longrightarrow> net' i r t n k = net i r t n k"
  show "FastDNSLookup e net' dsched names nameserver nameserverFile dcallback threads dw =
      FastDNSLookup e net dsched names nameserver nameserverFile dcallback threads dw"
    by (auto simp: FastDNSLookup_def Let_def lookupResults_valid_only [OF a]
        split: prod.splits ending.splits)
next
  assume a: "filter IsValidDomain names \<noteq> [] \<and>
    FastDNSLookup e net dsched names nameserver nameserverFile dcallback threads dw = (dw', Returned found)"
  then have ne: "names \<noteq> []" "keepValid names [] \<noteq> []"
    by (auto simp: keepValid_eq)
  show "\<exists>p. printed dw' = p @ [Complete (length (filter IsValidDomain names))
                                     (length (filter IsValidDomain names)), ClearLine]"
    using a ne
    by (auto simp: FastDNSLookup_def Let_def keepValid_eq
        split: prod.splits ending.splits if_splits)
qed

theorem invalid_entries_dropped_witness:
  "(case GetURLBatch
      [FeederLoads, FeederSends, FeederLoads, FeederSends, Receive 0, LoadAborted 0,
       RateLimit 0, Get 0]
      [''a.com'', ''..'', ''b.com''] True (\<lambda>r c. (False, c)) 1 True (startGlobals 0 0)
      \<lparr>printed = [], cbState = ()\<rparr> of
      Reached s \<Rightarrow> nTotal s = 2 \<and> requests s = [(''https://a.com'', 0)] \<and> jobs s = [''b.com'']
    | _ \<Rightarrow> False) \<and>
   FastDNSLookup \<lparr>files = (\<lambda>p. None), TrimSpace = (\<lambda>s. s)\<rparr>
      (\<lambda>i r t n k. if IsValidDomain n then None else Some (DNSError False False)) [1, 0]
      [''a.com'', ''..'', ''b.com''] [] [] None 1 \<lparr>printed = [], cbState = ()\<rparr> =
   FastDNSLookup \<lparr>files = (\<lambda>p. None), TrimSpace = (\<lambda>s. s)\<rparr>
      (\<lambda>i r t n k. None) [1, 0]
      [''a.com'', ''..'', ''b.com''] [] [] None 1 \<lparr>printed = [], cbState = ()\<rparr> \<and>
   FastDNSLookup \<lparr>files = (\<lambda>p. None), TrimSpace = (\<lambda>s. s)\<rparr>
      (\<lambda>i r t n k. None) [1, 0]
      [''a.com'', ''..'', ''b.com''] [] [] None 1 \<lparr>printed = [], cbState = ()\<rparr> =
     (\<lparr>printed = [BruteForcingNames 3, Complete 2 2, ClearLine], cbState = ()\<rparr>,
      Returned [''b.com'', ''a.com''])"
proof (intro conjI)
  let ?X = "GetURLBatch
      [FeederLoads, FeederSends, FeederLoads, FeederSends, Receive 0, LoadAborted 0,
       RateLimit 0, Get 0]
      [''a.com'', ''..'', ''b.com''] True (\<lambda>(r::HttpResult) (c::unit). (False, c)) 1 True
      (startGlobals 0 0) \<lparr>printed = [], cbState = ()\<rparr>"
  have "case ?X of
          Reached s \<Rightarrow> requests s = [(''https://a.com'', 0)] \<and> jobs s = [''b.com'']
        | _ \<Rightarrow> False"
    by code_simp
  then obtain s where r: "?X = Reached s" "requests s = [(''https://a.com'', 0)]"
      "jobs s = [''b.com'']"
    by (auto split: progress.splits)
  have f: "filter IsValidDomain [''a.com'', ''..'', ''b.com''] = [''a.com'', ''b.com'']"
    by code_simp
  from invalid_entries_dropped [THEN conjunct2, THEN conjunct2, THEN conjunct1, rule_format, OF r(1)]
  have "nTotal s = length (filter IsValidDomain [''a.com'', ''..'', ''b.com''])"
    by blast
  then have "nTotal s = 2"
    unfolding f by simp
  then show "case ?X of
      Reached s \<Rightarrow> nTotal s = 2 \<and> requests s = [(''https://a.com'', 0)] \<and> jobs s = [''b.com'']
    | _ \<Rightarrow> False"
    unfolding r(1) progress.case using r(2,3) by blast
next
  show "FastDNSLookup \<lparr>files = (\<lambda>p. None), TrimSpace = (\<lambda>s. s)\<rparr>
      (\<lambda>i r t n k. if IsValidDomain n then None else Some (DNSError False False)) [1, 0]
      [''a.com'', ''..'', ''b.com''] [] [] None 1 \<lparr>printed = [], cbState = ()\<rparr> =
   FastDNSLookup \<lparr>files = (\<lambda>p. None), TrimSpace = (\<lambda>s. s)\<rparr>
      (\<lambda>i r t n k. None) [1, 0]
      [''a.com'', ''..'', ''b.com''] [] [] None 1 \<lparr>printed = [], cbState = ()\<rparr>"
    by (rule invalid_entries_dropped [THEN conjunct2, THEN conjunct2, THEN conjunct2,
          THEN conjunct1, rule_format]) simp
next
  show "FastDNSLookup \<lparr>files = (\<lambda>p. None), TrimSpace = (\<lambda>s. s)\<rparr>
      (\<lambda>i r t n k. None) [1, 0]
      [''a.com'', ''..'', ''b.com''] [] [] None 1 \<lparr>printed = [], cbState = ()\<rparr> =
     (\<lparr>printed = [BruteForcingNames 3, Complete 2 2, ClearLine], cbState = ()\<rparr>,
      Returned [''b.com'', ''a.com''])"
    by code_simp
qed

section \<open>The rate limiter's state across batches\<close>

lemma waitWhilePaused_Some:
  assumes "waitWhilePaused g = Some g'"
  shows "rlPaused g = 0 \<and> g' = g"
proof (rule waitWhilePaused.raw_induct [OF _ assms])
  fix f and h h' :: globals
  assume ih: "\<And>h h'. f h = Some h' \<Longrightarrow> rlPaused h = 0 \<and> h' = h"
    and b: "(if rlPaused h \<noteq> 0 then f (h\<lparr>trace := trace h @ [PollSleep]\<rparr>) else Some h) = Some h'"
  show "rlPaused h = 0 \<and> h' = h"
  proof (cases "rlPaused h = 0")
    case True
    with b show ?thesis by simp
  next
    case False
    with b have "f (h\<lparr>trace := trace h @ [PollSleep]\<rparr>) = Some h'" by simp
    from ih [OF this] False show ?thesis by simp
  qed
qed

lemma rateLimitCheck_Some:
  assumes "rateLimitCheck g = Some g'"
  shows "rlPaused g' = rlPaused g \<and> rlThreshold g' = rlThreshold g \<and> rlSleep g' = rlSleep g \<and>
         (rlCount g' = rlCount g \<or> rlCount g' = wrap64 (rlCount g + 1))"
proof (cases "rlThreshold g \<le> 0")
  case True
  with assms show ?thesis by (simp add: rateLimitCheck_def)
next
  case False
  with assms obtain g1 where "waitWhilePaused g = Some g1"
    by (auto simp: rateLimitCheck_def split: option.splits)
  from waitWhilePaused_Some [OF this] have p: "rlPaused g = 0" by simp
  from rateLimitCheck_step [OF _ p] False assms show ?thesis by auto
qed

lemma rateLimitCheck_count:
  assumes "rateLimitCheck g = Some g'" and "0 \<le> rlCount g" and "rlCount g + 1 < 2 ^ 63"
  shows "rlCount g \<le> rlCount g' \<and> rlCount g' \<le> rlCount g + 1 \<and> rlPaused g' = rlPaused g"
proof -
  have "wrap64 (rlCount g + 1) = rlCount g + 1"
    using assms(2,3) by (intro wrap64_id) (simp add: int64_range_def)
  with rateLimitCheck_Some [OF assms(1)] show ?thesis by auto
qed

lemma perform_count:
  assumes "perform c p = Some p'" and "0 \<le> rlCount (limiter p)"
    and "rlCount (limiter p) + 1 < 2 ^ 63"
  shows "rlCount (limiter p) \<le> rlCount (limiter p') \<and>
         rlCount (limiter p') \<le> rlCount (limiter p) + 1 \<and>
         rlPaused (limiter p') = rlPaused (limiter p)"
proof (cases c)
  case (CallInitRateLimiter threshold sleep)
  with assms(1) show ?thesis by (auto simp: InitRateLimiter_def)
next
  case CallRateLimitCheck
  with assms(1) obtain g where g: "rateLimitCheck (limiter p) = Some g" "p' = p\<lparr>limiter := g\<rparr>"
    by (auto split: option.splits)
  from rateLimitCheck_count [OF g(1) assms(2,3)] g(2) show ?thesis by simp
next
  case CallResetHasFuncs
  with assms(1) show ?thesis by (auto simp: resetHasFuncs_def)
next
  case (CallPrintFunctionsResponse1 result)
  with assms(1) show ?thesis by (auto simp: printFunctionsResponse1_def)
qed

lemma performAll_count:
  assumes "performAll cs p = Some p'" and "0 \<le> rlCount (limiter p)"
    and "rlCount (limiter p) + int (length cs) < 2 ^ 63"
  shows "rlCount (limiter p) \<le> rlCount (limiter p') \<and>
         rlCount (limiter p') \<le> rlCount (limiter p) + int (length cs) \<and>
         rlPaused (limiter p') = rlPaused (limiter p)"
  using assms
proof (induction cs arbitrary: p)
  case Nil
  then show ?case by simp
next
  case (Cons c cs)
  from Cons.prems(1) obtain p1 where p1: "perform c p = Some p1" "performAll cs p1 = Some p'"
    by (auto split: option.splits)
  have "rlCount (limiter p) + 1 < 2 ^ 63"
    using Cons.prems(3) by simp
  from perform_count [OF p1(1) Cons.prems(2) this]
  have c1: "rlCount (limiter p) \<le> rlCount (limiter p1)"
    "rlCount (limiter p1) \<le> rlCount (limiter p) + 1"
    "rlPaused (limiter p1) = rlPaused (limiter p)"
    by simp_all
  have "rlCount (limiter p1) \<le> rlCount (limiter p') \<and>
         rlCount (limiter p') \<le> rlCount (limiter p1) + int (length cs) \<and>
         rlPaused (limiter p') = rlPaused (limiter p1)"
    using c1 Cons.prems(2,3) by (intro Cons.IH [OF p1(2)]) simp_all
  with c1 show ?case by simp
qed

lemma step_rl:
  assumes "step callback a s = Some s'"
  shows "rl s' = rl s \<or> rateLimitCheck (rl s) = Some (rl s')"
  using assms by (cases rule: stepE) (simp_all add: setWorker_def)

lemma step_count:
  assumes "step callback a s = Some s'" and "0 \<le> rlCount (rl s)"
    and "rlCount (rl s) + 1 < 2 ^ 63"
  shows "rlCount (rl s) \<le> rlCount (rl s') \<and> rlCount (rl s') \<le> rlCount (rl s) + 1 \<and>
         rlPaused (rl s') = rlPaused (rl s)"
  using step_rl [OF assms(1)] rateLimitCheck_count [OF _ assms(2,3)] by auto

lemma run_count:
  assumes "run callback sched s = Some s'" and "0 \<le> rlCount (rl s)"
    and "rlCount (rl s) + int (length sched) < 2 ^ 63"
  shows "rlCount (rl s) \<le> rlCount (rl s') \<and>
         rlCount (rl s') \<le> rlCount (rl s) + int (length sched) \<and>
         rlPaused (rl s') = rlPaused (rl s)"
  using assms
proof (induction sched arbitrary: s)
  case Nil
  then show ?case by simp
next
  case (Cons a as)
  from Cons.prems(1) obtain s1 where s1: "step callback a s = Some s1" "run callback as s1 = Some s'"
    by (auto split: option.splits)
  have "rlCount (rl s) + 1 < 2 ^ 63"
    using Cons.prems(3) by simp
  from step_count [OF s1(1) Cons.prems(2) this]
  have c1: "rlCount (rl s) \<le> rlCount (rl s1)" "rlCount (rl s1) \<le> rlCount (rl s) + 1"
    "rlPaused (rl s1) = rlPaused (rl s)"
    by simp_all
  have "rlCount (rl s1) \<le> rlCount (rl s') \<and>
         rlCount (rl s') \<le> rlCount (rl s1) + int (length as) \<and>
         rlPaused (rl s') = rlPaused (rl s1)"
    using c1 Cons.prems(2,3) by (intro Cons.IH [OF s1(2)]) simp_all
  with c1 show ?case by simp
qed

text \<open>
  C9, as the code has it. The rate limiter's counter and paused flag are package-level
  variables, handed from each batch to the next, and nothing resets them. Through any
  sequence of the calls that assign package-level variables the counter never goes down
  (as long as it stays within 64 bits) and the paused flag is back to what it was;
  through any run of an HTTP batch the counter never goes down either. The reset at
  the head of \<open>checkFunctions\<close> empties \<open>hasFuncs\<close> and leaves the rate limiter's
  variables as they are.
\<close>

theorem rate_state_never_reset:
  "(performAll cs p = Some p' \<and> 0 \<le> rlCount (limiter p) \<and>
    rlCount (limiter p) + int (length cs) < 2 ^ 63 \<longrightarrow>
      rlCount (limiter p) \<le> rlCount (limiter p') \<and>
      rlPaused (limiter p') = rlPaused (limiter p)) \<and>
   limiter (resetHasFuncs p) = limiter p \<and>
   (run callback sched s = Some s' \<and> 0 \<le> rlCount (rl s) \<and>
    rlCount (rl s) + int (length sched) < 2 ^ 63 \<longrightarrow>
      rlCount (rl s) \<le> rlCount (rl s')) \<and>
   (GetURLBatch_launch urlList useSSL threads followRedirects g w = Launched s0 \<longrightarrow> rl s0 = g)"
proof (intro conjI impI)
  assume "performAll cs p = Some p' \<and> 0 \<le> rlCount (limiter p) \<and>
    rlCount (limiter p) + int (length cs) < 2 ^ 63"
  then show "rlCount (limiter p) \<le> rlCount (limiter p')"
    "rlPaused (limiter p') = rlPaused (limiter p)"
    using performAll_count [of cs p p'] by simp_all
next
  show "limiter (resetHasFuncs p) = limiter p"
    by (simp add: resetHasFuncs_def)
next
  assume "run callback sched s = Some s' \<and> 0 \<le> rlCount (rl s) \<and>
    rlCount (rl s) + int (length sched) < 2 ^ 63"
  then show "rlCount (rl s) \<le> rlCount (rl s')"
    using run_count [of callback sched s s'] by simp
next
  assume "GetURLBatch_launch urlList useSSL threads followRedirects g w = Launched s0"
  then show "rl s0 = g" by (rule launch_state)
qed

theorem rate_state_never_reset_witness:
  "(case performAll [CallRateLimitCheck, CallResetHasFuncs, CallRateLimitCheck]
           \<lparr>limiter = startGlobals 2 Second, hasFuncs = [''u'']\<rparr> of
      Some p' \<Rightarrow>
        rlCount (limiter \<lparr>limiter = startGlobals 2 Second, hasFuncs = [''u'']\<rparr>)
          \<le> rlCount (limiter p') \<and>
        rlPaused (limiter p') = rlPaused (limiter \<lparr>limiter = startGlobals 2 Second, hasFuncs = [''u'']\<rparr>)
    | None \<Rightarrow> False) \<and>
   (case GetURLBatch_launch [''a.com''] False 1 True (startGlobals 2 Second)
           \<lparr>printed = [], cbState = ()\<rparr> of
      Launched s0 \<Rightarrow>
        rl s0 = startGlobals 2 Second \<and>
        (case run (\<lambda>r c. (False, c))
                [FeederLoads, FeederSends, Receive 0, LoadAborted 0, RateLimit 0, Get 0] s0 of
           Some s' \<Rightarrow> rlCount (rl s0) \<le> rlCount (rl s')
         | None \<Rightarrow> False)
    | _ \<Rightarrow> False)"
proof (intro conjI)
  let ?p = "\<lparr>limiter = startGlobals 2 Second, hasFuncs = [''u'']\<rparr>"
  let ?cs = "[CallRateLimitCheck, CallResetHasFuncs, CallRateLimitCheck]"
  have ev: "case performAll ?cs ?p of Some p' \<Rightarrow> True | None \<Rightarrow> False"
    by code_simp
  obtain p' where p': "performAll ?cs ?p = Some p'"
  proof (cases "performAll ?cs ?p")
    case None
    with ev have False by (simp only: option.case)
    then show thesis ..
  next
    case (Some p')
    with that show thesis by blast
  qed
  have h: "0 \<le> rlCount (limiter ?p)" "rlCount (limiter ?p) + int (length ?cs) < 2 ^ 63"
    by (simp_all add: startGlobals_simps)
  from rate_state_never_reset [THEN conjunct1, rule_format, of ?cs ?p p'] p' h
  have "rlCount (limiter ?p) \<le> rlCount (limiter p') \<and>
        rlPaused (limiter p') = rlPaused (limiter ?p)"
    by blast
  then show "case performAll ?cs ?p of
      Some p' \<Rightarrow> rlCount (limiter ?p) \<le> rlCount (limiter p') \<and>
        rlPaused (limiter p') = rlPaused (limiter ?p)
    | None \<Rightarrow> False"
    unfolding p' option.case .
next
  let ?cb = "\<lambda>(r::HttpResult) (c::unit). (False, c)"
  let ?sched = "[FeederLoads, FeederSends, Receive 0, LoadAborted 0, RateLimit 0, Get 0]"
  let ?L = "GetURLBatch_launch [''a.com''] False 1 True (startGlobals 2 Second)
           \<lparr>printed = [], cbState = ()\<rparr>"
  have ev: "case ?L of
              Launched s0 \<Rightarrow> (case run ?cb ?sched s0 of Some s' \<Rightarrow> True | None \<Rightarrow> False)
            | _ \<Rightarrow> False"
    by code_simp
  obtain s0 where l: "?L = Launched s0"
    and e: "case run ?cb ?sched s0 of Some s' \<Rightarrow> True | None \<Rightarrow> False"
  proof (cases ?L)
    case (Launched s0)
    from ev have "case run ?cb ?sched s0 of Some s' \<Rightarrow> True | None \<Rightarrow> False"
      unfolding Launched launch.case .
    with Launched that show thesis by blast
  next
    case NothingToDo
    with ev have False by (simp only: launch.case)
    then show thesis ..
  next
    case MakeChanPanics
    with ev have False by (simp only: launch.case)
    then show thesis ..
  qed
  obtain s' where r: "run ?cb ?sched s0 = Some s'"
  proof (cases "run ?cb ?sched s0")
    case None
    with e have False by (simp only: option.case)
    then show thesis ..
  next
    case (Some s')
    with that show thesis by blast
  qed
  from rate_state_never_reset [THEN conjunct2, THEN conjunct2, THEN conjunct2, rule_format, OF l]
  have g: "rl s0 = startGlobals 2 Second" .
  have h: "0 \<le> rlCount (rl s0)" "rlCount (rl s0) + int (length ?sched) < 2 ^ 63"
    by (simp_all add: g startGlobals_simps)
  from rate_state_never_reset [THEN conjunct2, THEN conjunct2, THEN conjunct1, rule_format,
      of ?cb ?sched s0 s'] r h
  have "rlCount (rl s0) \<le> rlCount (rl s')"
    by blast
  with g have "rl s0 = startGlobals 2 Second \<and> rlCount (rl s0) \<le> rlCount (rl s')"
    by blast
  then show "case ?L of
      Launched s0 \<Rightarrow>
        rl s0 = startGlobals 2 Second \<and>
        (case run ?cb ?sched s0 of
           Some s' \<Rightarrow> rlCount (rl s0) \<le> rlCount (rl s')
         | None \<Rightarrow> False)
    | _ \<Rightarrow> False"
    unfolding l launch.case r option.case .
qed

theorem rate_state_reset_counterexample:
  "map_option (\<lambda>p. (rlCount (limiter p), rlPaused (limiter p), hasFuncs p))
     (performAll
        [CallRateLimitCheck, CallRateLimitCheck, CallRateLimitCheck,
         CallPrintFunctionsResponse1
           \<lparr>URL = ''http://us-central1-x.cloudfunctions.net'', StatusCode = 302,
            Reason = ''Found'', Body = [], OriginalURL = ''http://us-central1-x.cloudfunctions.net''\<rparr>,
         CallResetHasFuncs]
        \<lparr>limiter = startGlobals 8000 (240 * Second), hasFuncs = []\<rparr>)
   = Some (3, 0, [])"
  by code_simp

end
